theory Spec2Isabelle
  imports
    Complex_Main
    "HOL-Library.Word"
    "HOL-Library.Char_ord"
    "HOL-Library.List_Lexorder"
begin

section \<open>A generic MongoDB repository: pagination, queries and index reconciliation\<close>

text \<open>
  The development follows the Go sources: \<^verbatim>\<open>models.go\<close> (the \<^verbatim>\<open>Pagination\<close> value object)
  and \<^verbatim>\<open>impl.go\<close>, which holds two variants of the generic collection. The first variant
  keeps the source's names; the functions of the second variant carry the suffix \<open>2\<close>.
  Go's \<^verbatim>\<open>int64\<close> is a 64-bit word read as two's complement, \<^verbatim>\<open>float64\<close> is modelled by its
  values (rationals, the infinities and NaN) with every operation rounded to the nearest
  representable value, and the document store behind the driver is an explicit state that
  also records every driver call the repository issues.
\<close>

subsection \<open>Machine numbers\<close>

type_synonym int64 = "64 word"

text \<open>
  Rounding to the nearest integer, ties to the even neighbour: the rounding of the
  significand of a binary floating-point number.
\<close>

definition round_half_even :: "rat \<Rightarrow> int" where
  "round_half_even x =
     (if x - of_int \<lfloor>x\<rfloor> < 1 / 2 then \<lfloor>x\<rfloor>
      else if 1 / 2 < x - of_int \<lfloor>x\<rfloor> then \<lfloor>x\<rfloor> + 1
      else if even \<lfloor>x\<rfloor> then \<lfloor>x\<rfloor> else \<lfloor>x\<rfloor> + 1)"

text \<open>
  A \<^verbatim>\<open>float64\<close> has a significand of 53 bits. A positive number is scaled by powers of two
  until it lies in \<open>[2^52, 2^53)\<close>, rounded there to an integer, and scaled back.
  \<open>round_big\<close> scales down, \<open>round_pos\<close> scales up.
\<close>

function round_big :: "rat \<Rightarrow> rat" where
  "round_big x = (if x < 2 ^ 53 then of_int (round_half_even x) else 2 * round_big (x / 2))"
  by pat_completeness auto
termination
proof (relation "measure (\<lambda>x. nat \<lfloor>x\<rfloor>)")
  show "wf (measure (\<lambda>x::rat. nat \<lfloor>x\<rfloor>))" by simp
next
  fix x :: rat
  assume "\<not> x < 2 ^ 53"
  then have x: "2 ^ 53 \<le> x" by simp
  then have "x / 2 + 1 \<le> x" by simp
  then have "\<lfloor>x / 2 + 1\<rfloor> \<le> \<lfloor>x\<rfloor>" by (rule floor_mono)
  then have "\<lfloor>x / 2\<rfloor> + 1 \<le> \<lfloor>x\<rfloor>" by simp
  moreover have "0 \<le> \<lfloor>x / 2\<rfloor>" using x by simp
  ultimately have "nat \<lfloor>x / 2\<rfloor> < nat \<lfloor>x\<rfloor>" by linarith
  then show "(x / 2, x) \<in> measure (\<lambda>x. nat \<lfloor>x\<rfloor>)" by simp
qed

function round_pos :: "rat \<Rightarrow> rat" where
  "round_pos x =
     (if x \<le> 0 then 0 else if x < 2 ^ 52 then round_pos (2 * x) / 2 else round_big x)"
  by pat_completeness auto
termination
proof (relation "measure (\<lambda>x. nat \<lceil>2 ^ 52 / x\<rceil>)")
  show "wf (measure (\<lambda>x::rat. nat \<lceil>2 ^ 52 / x\<rceil>))" by simp
next
  fix x :: rat
  assume a: "\<not> x \<le> 0" "x < 2 ^ 52"
  define y where "y = 2 ^ 52 / x"
  have y: "1 < y" using a by (simp add: y_def)
  have h: "2 ^ 52 / (2 * x) = y / 2" by (simp add: y_def)
  have c2: "2 \<le> \<lceil>y\<rceil>" using y by linarith
  have "y \<le> of_int \<lceil>y\<rceil>" by simp
  then have "y / 2 \<le> of_int \<lceil>y\<rceil> / 2" by simp
  also have "\<dots> \<le> of_int (\<lceil>y\<rceil> - 1)"
  proof -
    have "\<lceil>y\<rceil> \<le> 2 * (\<lceil>y\<rceil> - 1)" using c2 by simp
    then have "(of_int \<lceil>y\<rceil> :: rat) \<le> of_int (2 * (\<lceil>y\<rceil> - 1))" by (simp only: of_int_le_iff)
    then show ?thesis by simp
  qed
  finally have "\<lceil>y / 2\<rceil> \<le> \<lceil>y\<rceil> - 1" by (simp only: ceiling_le_iff)
  then have "nat \<lceil>y / 2\<rceil> < nat \<lceil>y\<rceil>" using c2 by simp
  then show "(2 * x, x) \<in> measure (\<lambda>x. nat \<lceil>2 ^ 52 / x\<rceil>)" by (simp add: h y_def)
qed

declare round_big.simps [simp del] round_pos.simps [simp del]

definition float64_round :: "rat \<Rightarrow> rat" where
  "float64_round x = (if x < 0 then - round_pos (- x) else round_pos x)"

text \<open>
  The values of a \<^verbatim>\<open>float64\<close>. The numbers that occur below are conversions of an
  \<^verbatim>\<open>int64\<close> and quotients of two of them: zero, or of magnitude between \<open>2^-63\<close> and
  \<open>2^63\<close>, well inside the exponent range, so the exponent needs no bound here. The sign
  of a zero only shows when something is divided by it, and the only divisors are
  conversions of integers, whose zero is positive.
\<close>

datatype float64 = Finite rat | PosInf | NegInf | NaN

definition float64_of_int64 :: "int64 \<Rightarrow> float64" where
  "float64_of_int64 w = Finite (float64_round (of_int (sint w)))"

fun float64_div :: "float64 \<Rightarrow> float64 \<Rightarrow> float64" where
  "float64_div (Finite a) (Finite b) =
     (if b = 0 then (if a = 0 then NaN else if 0 < a then PosInf else NegInf)
      else Finite (float64_round (a / b)))"
| "float64_div (Finite a) PosInf = Finite 0"
| "float64_div (Finite a) NegInf = Finite 0"
| "float64_div PosInf (Finite b) = (if b < 0 then NegInf else PosInf)"
| "float64_div NegInf (Finite b) = (if b < 0 then PosInf else NegInf)"
| "float64_div _ _ = NaN"

fun math_Ceil :: "float64 \<Rightarrow> float64" where
  "math_Ceil (Finite x) = Finite (of_int \<lceil>x\<rceil>)"
| "math_Ceil f = f"

text \<open>
  The conversion \<^verbatim>\<open>int64(f)\<close> truncates towards zero. When the value does not fit (or is
  not a number) Go leaves the result to the implementation; \<open>oor\<close> is that result.
\<close>

definition trunc :: "rat \<Rightarrow> int" where
  "trunc x = (if 0 \<le> x then \<lfloor>x\<rfloor> else \<lceil>x\<rceil>)"

fun int64_of_float64 :: "int64 \<Rightarrow> float64 \<Rightarrow> int64" where
  "int64_of_float64 oor (Finite x) =
     (if - (2 ^ 63) \<le> trunc x \<and> trunc x < 2 ^ 63 then word_of_int (trunc x) else oor)"
| "int64_of_float64 oor f = oor"

subsection \<open>Pagination (models.go)\<close>

record Pagination =
  PageLimit :: int64
  Offset :: int64
  PageCurrent :: int64
  TotalPage :: int64
  TotalRecord :: int64

definition Init :: "Pagination \<Rightarrow> int64 \<Rightarrow> int64 \<Rightarrow> Pagination" where
  "Init p page limit =
     (let page = (if page <s 1 then 1 else page);
          limit = (if 100 <s limit then 100 else limit);
          p = p\<lparr>PageCurrent := page\<rparr>;
          p = p\<lparr>PageLimit := limit\<rparr>
      in p\<lparr>Offset := PageLimit p * (PageCurrent p - 1)\<rparr>)"

definition SetTotalRecord :: "int64 \<Rightarrow> Pagination \<Rightarrow> int64 \<Rightarrow> Pagination" where
  "SetTotalRecord oor p totalRecord =
     (let p = p\<lparr>TotalRecord := totalRecord\<rparr>
      in p\<lparr>TotalPage :=
            int64_of_float64 oor
              (math_Ceil (float64_div (float64_of_int64 (TotalRecord p))
                                      (float64_of_int64 (PageLimit p))))\<rparr>)"

definition zero_Pagination :: Pagination where
  "zero_Pagination =
     \<lparr>PageLimit = 0, Offset = 0, PageCurrent = 0, TotalPage = 0, TotalRecord = 0\<rparr>"

text \<open>
  What \<^verbatim>\<open>int64(f)\<close> yields on amd64 for a value out of range: the smallest \<^verbatim>\<open>int64\<close>.
  It instantiates \<open>oor\<close> in the concrete scenarios.
\<close>

definition min_int64 :: int64 where
  "min_int64 = - 9223372036854775808"

subsection \<open>Errors\<close>

text \<open>
  The Go \<^verbatim>\<open>error\<close> values that occur, with the two ways a call can end without
  returning: a nil pointer dereference (a run-time panic) and \<^verbatim>\<open>log.Fatalf\<close> (the
  process exits). \<open>Wrapped msg e\<close> is \<^verbatim>\<open>fmt.Errorf(msg + ": %w", e)\<close>, \<open>ErrorsNew msg\<close>
  is \<^verbatim>\<open>errors.New(msg)\<close>; the others come from the driver or the server.
\<close>

datatype err =
    Network
  | IndexNotFound
  | CannotDropIdIndex
  | IndexKeySpecsConflict
  | IndexOptionsConflict
  | ErrEmptySlice
  | BadValue
  | ErrNoDocuments
  | ErrorsNew string
  | Wrapped string err
  | NilDereference
  | LogFatal

subsection \<open>The driver's option and model types\<close>

text \<open>
  Pointer-typed fields and arguments are \<open>option\<close>s: \<open>None\<close> is \<^verbatim>\<open>nil\<close>. An index key
  document (\<^verbatim>\<open>bson.D\<close>) is the ordered list of its fields with their directions.
\<close>

type_synonym bsonD = "(string \<times> int) list"

record IndexOptions =
  Name :: "string option"

record IndexModel =
  Keys :: bsonD
  Options :: "IndexOptions option"

record FindOptions =
  Skip :: "int64 option"
  Limit :: "int64 option"

record FindOneOptions =
  FindOne_Skip :: "int64 option"

record UpdateOptions =
  Hint :: "string option"
  Upsert :: "bool option"

definition SetSkip :: "FindOptions \<Rightarrow> int64 \<Rightarrow> FindOptions" where
  "SetSkip f i = f\<lparr>Skip := Some i\<rparr>"

definition SetLimit :: "FindOptions \<Rightarrow> int64 \<Rightarrow> FindOptions" where
  "SetLimit f i = f\<lparr>Limit := Some i\<rparr>"

text \<open>\<^verbatim>\<open>new(options.FindOneOptions)\<close>: every field nil.\<close>

definition new_FindOneOptions :: FindOneOptions where
  "new_FindOneOptions = \<lparr>FindOne_Skip = None\<rparr>"

text \<open>An update document as the repository hands it to the driver: as the caller gave it,
  or wrapped as \<^verbatim>\<open>bson.M{"$set": update}\<close>.\<close>

datatype 'u update_doc = AsGiven 'u | DollarSet 'u

subsection \<open>The document store behind the driver\<close>

text \<open>
  The MongoDB driver and server are not part of the repository. They are modelled by a
  state: the documents and the indexes of the one collection both handles address, and
  the list of driver calls issued so far, oldest first, each with the handle it went
  through. \<open>outage s n\<close> says that call number \<open>n\<close> (counted from 0) fails for reasons of
  infrastructure, so every error branch of the repository can be reached;
  \<open>apply_update\<close> is the server's reading of an update document.
\<close>

datatype conn = WriteCollection | ReadCollection

datatype ('d, 'u) request =
    ListIndexes
  | DropOne string
  | CreateOne IndexModel
  | CountDocuments "'d \<Rightarrow> bool"
  | FindMany "'d \<Rightarrow> bool" "FindOptions option"
  | FindFirst "'d \<Rightarrow> bool" "FindOneOptions option"
  | InsertMany_req "'d list"
  | UpdateOne_req "'d \<Rightarrow> bool" "'u update_doc" "UpdateOptions option list"

type_synonym ('d, 'u) call = "conn \<times> ('d, 'u) request"

record ('d, 'u) store =
  stored_docs :: "'d list"
  live_indexes :: "(string \<times> bsonD) list"
  calls :: "('d, 'u) call list"
  outage :: "nat \<Rightarrow> bool"
  apply_update :: "'u update_doc \<Rightarrow> 'd \<Rightarrow> 'd"

text \<open>
  Issuing a call: it is recorded, then it either fails for infrastructure reasons or is
  served. \<open>serve\<close> works on the state in which the call is already recorded.
\<close>

definition issue ::
  "('d, 'u) call \<Rightarrow> (('d, 'u) store \<Rightarrow> err + 'a \<times> ('d, 'u) store) \<Rightarrow> ('d, 'u) store
     \<Rightarrow> (err + 'a) \<times> ('d, 'u) store" where
  "issue c serve s =
     (let s1 = s\<lparr>calls := calls s @ [c]\<rparr> in
      if outage s (length (calls s)) then (Inl Network, s1)
      else (case serve s1 of Inl e \<Rightarrow> (Inl e, s1) | Inr (a, s2) \<Rightarrow> (Inr a, s2)))"

text \<open>The calls issued between an earlier state and a later one.\<close>

definition issued :: "('d, 'u) store \<Rightarrow> ('d, 'u) store \<Rightarrow> ('d, 'u) call list" where
  "issued s s' = drop (length (calls s)) (calls s')"

text \<open>
  Modelled from the spec: the index operations of the store (``list/create/drop on a
  collection's index handle'', with ``creation against an already-identical existing index
  must be a no-op (idempotent create), not an error''); where the spec is silent the
  MongoDB server's documented behaviour is followed. Listing returns the live indexes
  in the server's order. Dropping removes the index of that name; the server refuses to
  drop the primary-key index or an index it does not have. An index without a name gets
  the driver's default name, made of its keys and directions (\<^verbatim>\<open>field_1\<close>,
  \<^verbatim>\<open>a_1_b_-1\<close>). Creating an index that exists with the same name and keys changes
  nothing; the same name with other keys, or the same keys under another name, is a
  conflict; otherwise the index is added.
\<close>

definition digit :: "nat \<Rightarrow> char" where
  "digit d = ''0123456789'' ! d"

fun decimal :: "nat \<Rightarrow> string \<Rightarrow> string" where
  "decimal n acc =
     (if n < 10 then digit n # acc else decimal (n div 10) (digit (n mod 10) # acc))"

declare decimal.simps [simp del]

definition format_int :: "int \<Rightarrow> string" where
  "format_int v = (if v < 0 then CHR ''-'' # decimal (nat (- v)) [] else decimal (nat v) [])"

fun default_index_name :: "bsonD \<Rightarrow> string" where
  "default_index_name [] = []"
| "default_index_name [(k, v)] = k @ ''_'' @ format_int v"
| "default_index_name ((k, v) # rest) = k @ ''_'' @ format_int v @ ''_'' @ default_index_name rest"

definition index_name :: "IndexModel \<Rightarrow> string" where
  "index_name m =
     (case Options m of
        None \<Rightarrow> default_index_name (Keys m)
      | Some opts \<Rightarrow> (case Name opts of None \<Rightarrow> default_index_name (Keys m) | Some n \<Rightarrow> n))"

definition server_create ::
  "IndexModel \<Rightarrow> (string \<times> bsonD) list \<Rightarrow> err + (string \<times> bsonD) list" where
  "server_create m live =
     (if (index_name m, Keys m) \<in> set live then Inr live
      else if index_name m \<in> fst ` set live then Inl IndexKeySpecsConflict
      else if Keys m \<in> snd ` set live then Inl IndexOptionsConflict
      else Inr (live @ [(index_name m, Keys m)]))"

definition server_drop ::
  "string \<Rightarrow> (string \<times> bsonD) list \<Rightarrow> err + (string \<times> bsonD) list" where
  "server_drop name live =
     (if name = ''_id_'' then Inl CannotDropIdIndex
      else if name \<notin> fst ` set live then Inl IndexNotFound
      else Inr (filter (\<lambda>i. fst i \<noteq> name) live))"

text \<open>The three calls on \<^verbatim>\<open>writeCollection.Indexes()\<close>. A listing hands over all
  live indexes at once: the cursor of the source is the list, and reading or decoding an
  entry of it does not fail. The time limits the second variant passes with each call are
  not modelled.\<close>

definition Indexes_List ::
  "('d, 'u) store \<Rightarrow> (err + (string \<times> bsonD) list) \<times> ('d, 'u) store" where
  "Indexes_List s = issue (WriteCollection, ListIndexes) (\<lambda>s1. Inr (live_indexes s1, s1)) s"

definition Indexes_DropOne ::
  "string \<Rightarrow> ('d, 'u) store \<Rightarrow> (err + unit) \<times> ('d, 'u) store" where
  "Indexes_DropOne name s =
     issue (WriteCollection, DropOne name)
       (\<lambda>s1. case server_drop name (live_indexes s1) of
                Inl e \<Rightarrow> Inl e
              | Inr live \<Rightarrow> Inr ((), s1\<lparr>live_indexes := live\<rparr>)) s"

definition Indexes_CreateOne ::
  "IndexModel \<Rightarrow> ('d, 'u) store \<Rightarrow> (err + string) \<times> ('d, 'u) store" where
  "Indexes_CreateOne m s =
     issue (WriteCollection, CreateOne m)
       (\<lambda>s1. case server_create m (live_indexes s1) of
                Inl e \<Rightarrow> Inl e
              | Inr live \<Rightarrow> Inr (index_name m, s1\<lparr>live_indexes := live\<rparr>)) s"

text \<open>
  Modelled from the spec: the document operations of the store (``find/find-one/insert/
  update/delete/count \<dots> on a collection handle''); where the spec is silent the MongoDB Go
  driver's documented behaviour is followed. A filter is the set of documents it
  matches. Counting returns the number of matches. A query returns the matches in the
  collection's order after skipping \<open>skip\<close> of them, at most \<open>limit\<close> of them when the
  limit is not zero (a negative limit bounds by its magnitude); a negative skip is
  refused. A single-document read returns the first match or the driver's
  \<^verbatim>\<open>ErrNoDocuments\<close>. The driver refuses an empty batch of inserts with its
  \<^verbatim>\<open>ErrEmptySlice\<close> and otherwise appends the documents. An update changes the first
  match; the driver merges its option arguments and does not look at them further here.
\<close>

definition apply_limit :: "int64 option \<Rightarrow> 'd list \<Rightarrow> 'd list" where
  "apply_limit l xs =
     (case l of
        None \<Rightarrow> xs
      | Some n \<Rightarrow> (if sint n = 0 then xs else take (nat \<bar>sint n\<bar>) xs))"

definition server_find :: "('d \<Rightarrow> bool) \<Rightarrow> FindOptions option \<Rightarrow> 'd list \<Rightarrow> err + 'd list" where
  "server_find flt opt ds =
     (case opt of
        None \<Rightarrow> Inr (filter flt ds)
      | Some fo \<Rightarrow>
          (case Skip fo of
             None \<Rightarrow> Inr (apply_limit (Limit fo) (filter flt ds))
           | Some k \<Rightarrow>
               (if sint k < 0 then Inl BadValue
                else Inr (apply_limit (Limit fo) (drop (nat (sint k)) (filter flt ds))))))"

definition server_find_one ::
  "('d \<Rightarrow> bool) \<Rightarrow> FindOneOptions option \<Rightarrow> 'd list \<Rightarrow> err + 'd" where
  "server_find_one flt opt ds =
     (case (case opt of None \<Rightarrow> None | Some fo \<Rightarrow> FindOne_Skip fo) of
        None \<Rightarrow> (case filter flt ds of [] \<Rightarrow> Inl ErrNoDocuments | d # _ \<Rightarrow> Inr d)
      | Some k \<Rightarrow>
          (if sint k < 0 then Inl BadValue
           else (case drop (nat (sint k)) (filter flt ds) of
                   [] \<Rightarrow> Inl ErrNoDocuments
                 | d # _ \<Rightarrow> Inr d)))"

fun update_first :: "('d \<Rightarrow> bool) \<Rightarrow> ('d \<Rightarrow> 'd) \<Rightarrow> 'd list \<Rightarrow> 'd list" where
  "update_first flt f [] = []"
| "update_first flt f (d # ds) = (if flt d then f d # ds else d # update_first flt f ds)"

definition Collection_CountDocuments ::
  "conn \<Rightarrow> ('d \<Rightarrow> bool) \<Rightarrow> ('d, 'u) store \<Rightarrow> (err + int64) \<times> ('d, 'u) store" where
  "Collection_CountDocuments c flt s =
     issue (c, CountDocuments flt) (\<lambda>s1. Inr (of_nat (length (filter flt (stored_docs s1))), s1)) s"

definition Collection_Find ::
  "conn \<Rightarrow> ('d \<Rightarrow> bool) \<Rightarrow> FindOptions option \<Rightarrow> ('d, 'u) store
     \<Rightarrow> (err + 'd list) \<times> ('d, 'u) store" where
  "Collection_Find c flt opt s =
     issue (c, FindMany flt opt)
       (\<lambda>s1. case server_find flt opt (stored_docs s1) of Inl e \<Rightarrow> Inl e | Inr ds \<Rightarrow> Inr (ds, s1)) s"

definition Collection_FindOne ::
  "conn \<Rightarrow> ('d \<Rightarrow> bool) \<Rightarrow> FindOneOptions option \<Rightarrow> ('d, 'u) store
     \<Rightarrow> (err + 'd) \<times> ('d, 'u) store" where
  "Collection_FindOne c flt opt s =
     issue (c, FindFirst flt opt)
       (\<lambda>s1. case server_find_one flt opt (stored_docs s1) of Inl e \<Rightarrow> Inl e | Inr d \<Rightarrow> Inr (d, s1)) s"

definition Collection_InsertMany ::
  "conn \<Rightarrow> 'd list \<Rightarrow> ('d, 'u) store \<Rightarrow> (err + unit) \<times> ('d, 'u) store" where
  "Collection_InsertMany c documents s =
     issue (c, InsertMany_req documents)
       (\<lambda>s1. if documents = [] then Inl ErrEmptySlice
              else Inr ((), s1\<lparr>stored_docs := stored_docs s1 @ documents\<rparr>)) s"

definition Collection_UpdateOne ::
  "conn \<Rightarrow> ('d \<Rightarrow> bool) \<Rightarrow> 'u update_doc \<Rightarrow> UpdateOptions option list \<Rightarrow> ('d, 'u) store
     \<Rightarrow> (err + unit) \<times> ('d, 'u) store" where
  "Collection_UpdateOne c flt update opts s =
     issue (c, UpdateOne_req flt update opts)
       (\<lambda>s1. Inr ((), s1\<lparr>stored_docs := update_first flt (apply_update s1 update) (stored_docs s1)\<rparr>)) s"

subsection \<open>The generic collection (impl.go)\<close>

text \<open>
  \<^verbatim>\<open>Find\<close> reads the same in both variants. The pagination is a pointer the function
  writes through, so the updated pagination is part of the result. With a pagination and
  no options the call \<^verbatim>\<open>opt.SetSkip\<close> dereferences nil.
\<close>

definition Find ::
  "int64 \<Rightarrow> ('d \<Rightarrow> bool) \<Rightarrow> FindOptions option \<Rightarrow> Pagination option \<Rightarrow> ('d, 'u) store
     \<Rightarrow> (err + 'd list) \<times> Pagination option \<times> ('d, 'u) store" where
  "Find oor flt opt pagination s =
     (case pagination of
        None \<Rightarrow>
          (case Collection_Find ReadCollection flt opt s of
             (Inl e, s1) \<Rightarrow> (Inl e, None, s1)
           | (Inr results, s1) \<Rightarrow> (Inr results, None, s1))
      | Some p \<Rightarrow>
          (case Collection_CountDocuments ReadCollection flt s of
             (Inl e, s1) \<Rightarrow> (Inl e, Some p, s1)
           | (Inr total', s1) \<Rightarrow>
               (let p1 = Init p (PageCurrent p) (PageLimit p);
                    p2 = SetTotalRecord oor p1 total'
                in (case opt of
                      None \<Rightarrow> (Inl NilDereference, Some p2, s1)
                    | Some fo \<Rightarrow>
                        (let fo1 = SetSkip fo (Offset p2);
                             fo2 = SetLimit fo1 (PageLimit p2)
                         in (case Collection_Find ReadCollection flt (Some fo2) s1 of
                               (Inl e, s2) \<Rightarrow> (Inl e, Some p2, s2)
                             | (Inr results, s2) \<Rightarrow> (Inr results, Some p2, s2)))))))"

definition FindOne ::
  "('d \<Rightarrow> bool) \<Rightarrow> FindOneOptions option \<Rightarrow> ('d, 'u) store \<Rightarrow> (err + 'd) \<times> ('d, 'u) store" where
  "FindOne flt opt s =
     (case Collection_FindOne ReadCollection flt opt s of
        (Inl e, s1) \<Rightarrow> (Inl e, s1)
      | (Inr result, s1) \<Rightarrow> (Inr result, s1))"

text \<open>The second variant builds its own options and never reads \<open>opt\<close>.\<close>

definition FindOne2 ::
  "('d \<Rightarrow> bool) \<Rightarrow> FindOneOptions option \<Rightarrow> ('d, 'u) store \<Rightarrow> (err + 'd) \<times> ('d, 'u) store" where
  "FindOne2 flt opt s =
     (let bOpt = new_FindOneOptions in
      case Collection_FindOne ReadCollection flt (Some bOpt) s of
        (Inl e, s1) \<Rightarrow> (Inl e, s1)
      | (Inr result, s1) \<Rightarrow> (Inr result, s1))"

text \<open>\<^verbatim>\<open>InsertMany\<close> (both variants) copies the documents into a slice of interfaces and
  hands it to the driver.\<close>

definition InsertMany :: "'d list \<Rightarrow> ('d, 'u) store \<Rightarrow> (err + unit) \<times> ('d, 'u) store" where
  "InsertMany documents s =
     (let docs = map (\<lambda>doc. doc) documents in
      Collection_InsertMany WriteCollection docs s)"

definition UpdateOne ::
  "('d \<Rightarrow> bool) \<Rightarrow> 'u \<Rightarrow> UpdateOptions option list \<Rightarrow> ('d, 'u) store
     \<Rightarrow> (err + unit) \<times> ('d, 'u) store" where
  "UpdateOne flt update opts s = Collection_UpdateOne WriteCollection flt (AsGiven update) opts s"


subsection \<open>Index reconciliation, first variant\<close>

text \<open>
  A Go \<^verbatim>\<open>map[string]struct{}\<close> is the list of its keys, without repetition. Ranging over
  a map visits the keys in an order the run time chooses: \<open>rank\<close> is that choice, the
  keys are visited by ascending rank, so every order of the keys is the visit of some
  rank.
\<close>

definition map_insert :: "string \<Rightarrow> string list \<Rightarrow> string list" where
  "map_insert k m = (if k \<in> set m then m else m @ [k])"

definition range_keys :: "(string \<Rightarrow> nat) \<Rightarrow> string list \<Rightarrow> string list" where
  "range_keys rank m = sort_key rank m"

text \<open>Step 1: the names of the live indexes, the primary-key index left out.\<close>

fun existing_names :: "(string \<times> bsonD) list \<Rightarrow> string list \<Rightarrow> string list" where
  "existing_names [] existing = existing"
| "existing_names (idx # cursor) existing =
     (if fst idx \<noteq> ''_id_'' then existing_names cursor (map_insert (fst idx) existing)
      else existing_names cursor existing)"

text \<open>Step 2: the names of the descriptors that have one.\<close>

fun expected_names :: "IndexModel list \<Rightarrow> string list \<Rightarrow> string list" where
  "expected_names [] expected = expected"
| "expected_names (idx # rest) expected =
     (case Options idx of
        None \<Rightarrow> expected_names rest expected
      | Some opts \<Rightarrow>
          (case Name opts of
             None \<Rightarrow> expected_names rest expected
           | Some n \<Rightarrow> expected_names rest (map_insert n expected)))"

text \<open>Step 3: drop the live indexes that are not expected.\<close>

fun drop_unexpected ::
  "string list \<Rightarrow> string list \<Rightarrow> ('d, 'u) store \<Rightarrow> (err + unit) \<times> ('d, 'u) store" where
  "drop_unexpected [] expected s = (Inr (), s)"
| "drop_unexpected (name # rest) expected s =
     (if name \<notin> set expected then
        (case Indexes_DropOne name s of
           (Inl e, s1) \<Rightarrow> (Inl (Wrapped (''drop index '' @ name @ '' failed'') e), s1)
         | (Inr _, s1) \<Rightarrow> drop_unexpected rest expected s1)
      else drop_unexpected rest expected s)"

text \<open>Step 4: create every descriptor.\<close>

fun create_expected :: "IndexModel list \<Rightarrow> ('d, 'u) store \<Rightarrow> (err + unit) \<times> ('d, 'u) store" where
  "create_expected [] s = (Inr (), s)"
| "create_expected (idx # rest) s =
     (case Indexes_CreateOne idx s of
        (Inl e, s1) \<Rightarrow> (Inl (Wrapped ''create index failed'' e), s1)
      | (Inr _, s1) \<Rightarrow> create_expected rest s1)"

definition EnsureIndexes ::
  "(string \<Rightarrow> nat) \<Rightarrow> IndexModel list \<Rightarrow> ('d, 'u) store \<Rightarrow> (err + unit) \<times> ('d, 'u) store" where
  "EnsureIndexes rank indexes s =
     (case Indexes_List s of
        (Inl e, s1) \<Rightarrow> (Inl (Wrapped ''list indexes failed'' e), s1)
      | (Inr cursor, s1) \<Rightarrow>
          (let existing = existing_names cursor [];
               expected = expected_names indexes []
           in (case drop_unexpected (range_keys rank existing) expected s1 of
                 (Inl e, s2) \<Rightarrow> (Inl e, s2)
               | (Inr _, s2) \<Rightarrow> create_expected indexes s2)))"

subsection \<open>Index reconciliation, second variant\<close>

text \<open>\<^verbatim>\<open>*v.Options.Name\<close>: \<open>None\<close> when a pointer on the way is nil and the dereference
  panics.\<close>

definition deref_Name :: "IndexModel \<Rightarrow> string option" where
  "deref_Name v = (case Options v of None \<Rightarrow> None | Some opts \<Rightarrow> Name opts)"

definition less_by_name :: "IndexModel \<Rightarrow> IndexModel \<Rightarrow> bool option" where
  "less_by_name a b =
     (case deref_Name a of
        None \<Rightarrow> None
      | Some x \<Rightarrow> (case deref_Name b of None \<Rightarrow> None | Some y \<Rightarrow> Some (x \<le> y)))"

text \<open>
  \<^verbatim>\<open>sort.Slice\<close> sorts a slice of at most twelve elements by insertion: element \<open>i\<close> moves
  towards the front while \<^verbatim>\<open>less(j, j - 1)\<close> holds. \<open>sift x front\<close> moves \<open>x\<close> into the
  part already handled, which is kept back to front. For longer slices the library
  switches to another algorithm, with the same result whenever the names are distinct.
  \<open>None\<close> is the panic of the comparison. The source sorts the caller's slice in place;
  here the sorted list is a value of its own.
\<close>

fun sift :: "IndexModel \<Rightarrow> IndexModel list \<Rightarrow> IndexModel list option" where
  "sift x [] = Some [x]"
| "sift x (y # front) =
     (case less_by_name x y of
        None \<Rightarrow> None
      | Some True \<Rightarrow> (case sift x front of None \<Rightarrow> None | Some front' \<Rightarrow> Some (y # front'))
      | Some False \<Rightarrow> Some (x # y # front))"

fun insertion_sort :: "IndexModel list \<Rightarrow> IndexModel list \<Rightarrow> IndexModel list option" where
  "insertion_sort [] front = Some (rev front)"
| "insertion_sort (x # rest) front =
     (case sift x front of None \<Rightarrow> None | Some front' \<Rightarrow> insertion_sort rest front')"

definition sort_Slice :: "IndexModel list \<Rightarrow> IndexModel list option" where
  "sort_Slice indexes = insertion_sort indexes []"

text \<open>The inner loop of the scan: is the live name among the descriptors' names?\<close>

fun is_drop :: "string \<Rightarrow> IndexModel list \<Rightarrow> bool \<Rightarrow> bool option" where
  "is_drop name [] isDrop = Some isDrop"
| "is_drop name (v # rest) isDrop =
     (case deref_Name v of
        None \<Rightarrow> None
      | Some n \<Rightarrow> is_drop name rest (if n = name then False else isDrop))"

fun scan_cursor ::
  "(string \<times> bsonD) list \<Rightarrow> IndexModel list \<Rightarrow> string list \<Rightarrow> string list option" where
  "scan_cursor [] indexes dropIndexes = Some dropIndexes"
| "scan_cursor (index # cur) indexes dropIndexes =
     (if fst index = ''_id_'' then scan_cursor cur indexes dropIndexes
      else (case is_drop (fst index) indexes True of
              None \<Rightarrow> None
            | Some isDrop \<Rightarrow>
                scan_cursor cur indexes
                  (if isDrop then dropIndexes @ [fst index] else dropIndexes)))"

fun drop_each :: "string list \<Rightarrow> ('d, 'u) store \<Rightarrow> (err + unit) \<times> ('d, 'u) store" where
  "drop_each [] s = (Inr (), s)"
| "drop_each (indexStr # rest) s =
     (case Indexes_DropOne indexStr s of
        (Inl e, s1) \<Rightarrow> (Inl e, s1)
      | (Inr _, s1) \<Rightarrow> drop_each rest s1)"

fun create_each :: "IndexModel list \<Rightarrow> ('d, 'u) store \<Rightarrow> (err + unit) \<times> ('d, 'u) store" where
  "create_each [] s = (Inr (), s)"
| "create_each (index # rest) s =
     (case Indexes_CreateOne index s of
        (Inl e, s1) \<Rightarrow> (Inl e, s1)
      | (Inr _, s1) \<Rightarrow> create_each rest s1)"

definition EnsureIndexes2 ::
  "IndexModel list \<Rightarrow> ('d, 'u) store \<Rightarrow> (err + unit) \<times> ('d, 'u) store" where
  "EnsureIndexes2 indexes s =
     (case Indexes_List s of
        (Inl e, s1) \<Rightarrow> (Inl LogFatal, s1)
      | (Inr cur, s1) \<Rightarrow>
          (case sort_Slice indexes of
             None \<Rightarrow> (Inl NilDereference, s1)
           | Some indexes' \<Rightarrow>
               (case scan_cursor cur indexes' [] of
                  None \<Rightarrow> (Inl NilDereference, s1)
                | Some dropIndexes \<Rightarrow>
                    (case drop_each dropIndexes s1 of
                       (Inl e, s2) \<Rightarrow> (Inl e, s2)
                     | (Inr _, s2) \<Rightarrow> create_each indexes' s2))))"

subsection \<open>The scenarios of the specification\<close>

definition named_index :: "string \<Rightarrow> bsonD \<Rightarrow> IndexModel" where
  "named_index n k = \<lparr>Keys = k, Options = Some \<lparr>Name = Some n\<rparr>\<rparr>"

definition index_A :: IndexModel where
  "index_A = named_index ''A'' [(''field'', 1)]"

definition index_B :: IndexModel where
  "index_B = named_index ''B'' [(''field'', - 1)]"

text \<open>The live set \<open>{A:{field:1}, C:{field:1}}\<close> of the scenario, with the primary-key
  index, on a store without faults.\<close>

definition live_AC :: "(nat, unit) store" where
  "live_AC =
     \<lparr>stored_docs = [],
      live_indexes = [(''_id_'', [(''_id'', 1)]), (''A'', [(''field'', 1)]), (''C'', [(''field'', 1)])],
      calls = [],
      outage = (\<lambda>_. False),
      apply_update = (\<lambda>_ d. d)\<rparr>"

text \<open>A collection of 25 documents, numbered from 1, without faults.\<close>

definition docs_25 :: "(nat, unit) store" where
  "docs_25 =
     \<lparr>stored_docs = [1 ..< 26],
      live_indexes = [(''_id_'', [(''_id'', 1)])],
      calls = [],
      outage = (\<lambda>_. False),
      apply_update = (\<lambda>_ d. d)\<rparr>"

definition empty_store :: "(nat, unit) store" where
  "empty_store =
     \<lparr>stored_docs = [],
      live_indexes = [(''_id_'', [(''_id'', 1)])],
      calls = [],
      outage = (\<lambda>_. False),
      apply_update = (\<lambda>_ d. d)\<rparr>"

subsection \<open>Vocabulary for the statements\<close>

text \<open>The three index calls as they appear in the record of calls, a descriptor as the
  store files it, the names the first variant drops (the live names in the order the map
  is ranged over, without the expected ones), the live entries of the primary-key index,
  a descriptor without a name, the store the scenario ends in, and a store with two
  indexes that nobody asked for.\<close>

definition list_call :: "('d, 'u) call" where
  "list_call = (WriteCollection, ListIndexes)"

definition drop_call :: "string \<Rightarrow> ('d, 'u) call" where
  "drop_call n = (WriteCollection, DropOne n)"

definition create_call :: "IndexModel \<Rightarrow> ('d, 'u) call" where
  "create_call m = (WriteCollection, CreateOne m)"

definition descriptor :: "IndexModel \<Rightarrow> string \<times> bsonD" where
  "descriptor m = (index_name m, Keys m)"

definition names_to_drop ::
  "(string \<Rightarrow> nat) \<Rightarrow> IndexModel list \<Rightarrow> (string \<times> bsonD) list \<Rightarrow> string list" where
  "names_to_drop rank indexes live =
     filter (\<lambda>n. n \<notin> set (expected_names indexes [])) (range_keys rank (existing_names live []))"

definition id_entries :: "(string \<times> bsonD) list \<Rightarrow> (string \<times> bsonD) list" where
  "id_entries live = filter (\<lambda>i. fst i = ''_id_'') live"

definition unnamed_index :: IndexModel where
  "unnamed_index = \<lparr>Keys = [(''field'', 1)], Options = None\<rparr>"

definition after_AB :: "(nat, unit) store" where
  "after_AB =
     live_AC\<lparr>calls := [(WriteCollection, ListIndexes), (WriteCollection, DropOne ''C''),
                       (WriteCollection, CreateOne index_A), (WriteCollection, CreateOne index_B)],
             live_indexes := [(''_id_'', [(''_id'', 1)]), (''A'', [(''field'', 1)]),
                              (''B'', [(''field'', - 1)])]\<rparr>"

definition live_ZC :: "(nat, unit) store" where
  "live_ZC =
     \<lparr>stored_docs = [],
      live_indexes = [(''_id_'', [(''_id'', 1)]), (''Z'', [(''z'', 1)]), (''C'', [(''c'', 1)])],
      calls = [],
      outage = (\<lambda>_. False),
      apply_update = (\<lambda>_ d. d)\<rparr>"

section \<open>Properties\<close>

subsection \<open>Rounding to \<^verbatim>\<open>float64\<close>\<close>

lemma round_half_even_of_int: "round_half_even (of_int n) = n"
  by (simp add: round_half_even_def)

lemma round_half_even_numeral: "round_half_even (numeral k) = numeral k"
  using round_half_even_of_int [of "numeral k"] by simp

lemma round_half_even_err: "\<bar>of_int (round_half_even x) - x\<bar> \<le> 1 / 2"
proof -
  have "of_int \<lfloor>x\<rfloor> \<le> x" "x < of_int \<lfloor>x\<rfloor> + 1" by linarith+
  then show ?thesis
    by (auto simp: round_half_even_def abs_le_iff)
qed

lemma round_half_even_ge: "of_int n \<le> x \<Longrightarrow> n \<le> round_half_even x"
proof -
  assume "of_int n \<le> x"
  then have "n \<le> \<lfloor>x\<rfloor>" by (simp add: le_floor_iff)
  then show ?thesis by (auto simp: round_half_even_def)
qed

lemma round_big_err: "2 ^ 52 \<le> x \<Longrightarrow> \<bar>round_big x - x\<bar> * 2 ^ 53 < x"
proof (induction x rule: round_big.induct)
  case (1 x)
  show ?case
  proof (cases "x < 2 ^ 53")
    case True
    show ?thesis
    proof (cases "x = 2 ^ 52")
      case True
      have "round_big (2 ^ 52) = of_int (round_half_even (of_int (2 ^ 52)))"
        by (subst round_big.simps) simp
      then show ?thesis using True by (simp add: round_half_even_numeral)
    next
      case False
      then have "2 ^ 52 < x" using "1.prems" by simp
      moreover have "\<bar>of_int (round_half_even x) - x\<bar> \<le> 1 / 2" by (rule round_half_even_err)
      moreover have "round_big x = of_int (round_half_even x)"
        using True by (subst round_big.simps) simp
      ultimately show ?thesis by simp
    qed
  next
    case False
    then have h: "2 ^ 52 \<le> x / 2" by simp
    define e where "e = \<bar>round_big (x / 2) - x / 2\<bar>"
    have "e * 2 ^ 53 < x / 2" using h False "1.IH" by (simp add: e_def)
    moreover have "round_big x = 2 * round_big (x / 2)"
      using False by (subst round_big.simps) simp
    then have "\<bar>round_big x - x\<bar> = 2 * e"
      by (simp add: e_def abs_if)
    ultimately show ?thesis by simp
  qed
qed

lemma round_pos_err: "0 < x \<Longrightarrow> \<bar>round_pos x - x\<bar> * 2 ^ 53 < x"
proof (induction x rule: round_pos.induct)
  case (1 x)
  show ?case
  proof (cases "x < 2 ^ 52")
    case True
    define e where "e = \<bar>round_pos (2 * x) - 2 * x\<bar>"
    have "e * 2 ^ 53 < 2 * x" using True "1.prems" "1.IH" by (simp add: e_def)
    moreover have "round_pos x = round_pos (2 * x) / 2"
      using True "1.prems" by (subst round_pos.simps) simp
    then have "\<bar>round_pos x - x\<bar> = e / 2"
      by (simp add: e_def abs_if)
    ultimately show ?thesis by simp
  next
    case False
    then have "round_pos x = round_big x"
      using "1.prems" by (subst round_pos.simps) simp
    then show ?thesis using False round_big_err [of x] by simp
  qed
qed

lemma round_big_Ints: "round_big x \<in> \<int>"
proof (induction x rule: round_big.induct)
  case (1 x)
  show ?case
  proof (cases "x < 2 ^ 53")
    case True
    then have "round_big x = of_int (round_half_even x)" by (subst round_big.simps) simp
    then show ?thesis by simp
  next
    case False
    then have "round_big x = 2 * round_big (x / 2)" by (subst round_big.simps) simp
    moreover have "round_big (x / 2) \<in> \<int>" using False "1.IH" by simp
    ultimately show ?thesis by simp
  qed
qed

lemma round_big_ge: "2 ^ 52 \<le> x \<Longrightarrow> 2 ^ 52 \<le> round_big x"
proof (induction x rule: round_big.induct)
  case (1 x)
  show ?case
  proof (cases "x < 2 ^ 53")
    case True
    have "of_int (2 ^ 52) \<le> x" using "1.prems" by simp
    then have "2 ^ 52 \<le> round_half_even x" by (rule round_half_even_ge)
    then have "(of_int (2 ^ 52) :: rat) \<le> of_int (round_half_even x)" by (simp only: of_int_le_iff)
    moreover have "round_big x = of_int (round_half_even x)" using True by (subst round_big.simps) simp
    ultimately show ?thesis by simp
  next
    case False
    then have "2 ^ 52 \<le> round_big (x / 2)" using "1.IH" by simp
    moreover have "round_big x = 2 * round_big (x / 2)" using False by (subst round_big.simps) simp
    ultimately show ?thesis by simp
  qed
qed

lemma round_pos_exact:
  "x \<in> \<int> \<Longrightarrow> 0 < x \<Longrightarrow> x \<le> 2 ^ 53 \<Longrightarrow> round_pos x = x"
proof (induction x rule: round_pos.induct)
  case (1 x)
  show ?case
  proof (cases "x < 2 ^ 52")
    case True
    have "2 * x \<in> \<int>" using "1.prems"(1) by simp
    then have "round_pos (2 * x) = 2 * x" using True "1.prems" "1.IH" by simp
    moreover have "round_pos x = round_pos (2 * x) / 2"
      using True "1.prems" by (subst round_pos.simps) simp
    ultimately show ?thesis by simp
  next
    case False
    then have rp: "round_pos x = round_big x" using "1.prems" by (subst round_pos.simps) simp
    obtain n where n: "x = of_int n" using "1.prems"(1) by (auto elim: Ints_cases)
    show ?thesis
    proof (cases "x < 2 ^ 53")
      case True
      then have "round_big x = of_int (round_half_even x)" by (subst round_big.simps) simp
      then show ?thesis using rp n by (simp add: round_half_even_of_int)
    next
      case False
      then have x: "x = 2 ^ 53" using "1.prems" by simp
      have "round_big (2 ^ 53) = 2 * round_big (2 ^ 52)" by (subst round_big.simps) simp
      also have "round_big (2 ^ 52) = of_int (round_half_even (of_int (2 ^ 52)))"
        by (subst round_big.simps) simp
      finally show ?thesis using rp x by (simp add: round_half_even_numeral)
    qed
  qed
qed

lemma float64_round_exact:
  "0 \<le> n \<Longrightarrow> n \<le> 2 ^ 53 \<Longrightarrow> float64_round (of_int n) = of_int n"
proof (cases "n = 0")
  case True
  then show ?thesis by (simp add: float64_round_def round_pos.simps)
next
  case False
  assume "0 \<le> n" "n \<le> 2 ^ 53"
  then have "0 < (of_int n :: rat)" "(of_int n :: rat) \<le> of_int (2 ^ 53)"
    using False by (simp_all only: of_int_0_less_iff of_int_le_iff)
  then have "round_pos (of_int n) = of_int n"
    by (intro round_pos_exact) simp_all
  then show ?thesis using \<open>0 \<le> n\<close> by (simp add: float64_round_def)
qed

lemma float64_round_large:
  assumes "2 ^ 53 \<le> n"
  shows "\<exists>m. float64_round (of_int n) = of_int m \<and> 2 ^ 53 \<le> m"
proof -
  let ?x = "of_int n :: rat"
  have x: "2 ^ 53 \<le> ?x"
  proof -
    have "(of_int (2 ^ 53) :: rat) \<le> of_int n" using assms by (simp only: of_int_le_iff)
    then show ?thesis by simp
  qed
  then have "round_pos ?x = round_big ?x" by (subst round_pos.simps) simp
  also have "\<dots> = 2 * round_big (?x / 2)" using x by (subst round_big.simps) simp
  finally have r: "float64_round ?x = 2 * round_big (?x / 2)"
    using x by (simp add: float64_round_def)
  have "2 ^ 52 \<le> ?x / 2" using x by simp
  then have g: "2 ^ 52 \<le> round_big (?x / 2)" by (rule round_big_ge)
  obtain k where k: "round_big (?x / 2) = of_int k"
    using round_big_Ints [of "?x / 2"] by (auto elim: Ints_cases)
  have "(of_int (2 ^ 52) :: rat) \<le> of_int k" using g k by simp
  then have "2 ^ 52 \<le> k" by (simp only: of_int_le_iff)
  then have "float64_round ?x = of_int (2 * k) \<and> 2 ^ 53 \<le> 2 * k" using r k by simp
  then show ?thesis by blast
qed

lemma ceiling_float64_round_div:
  assumes T: "0 \<le> T" "T \<le> 2 ^ 53" and L: "1 \<le> L"
  shows "\<lceil>float64_round (of_int T / of_int L)\<rceil> = \<lceil>(of_int T / of_int L :: rat)\<rceil>"
proof (cases "L dvd T")
  case True
  then obtain k where k: "T = L * k" by (auto elim: dvdE)
  have q: "(of_int T / of_int L :: rat) = of_int k" using k L by simp
  have "0 \<le> k" using k T L by (simp add: zero_le_mult_iff)
  moreover have "k \<le> 2 ^ 53"
  proof -
    have "k \<le> L * k" using L \<open>0 \<le> k\<close> by (simp add: mult_le_cancel_right1)
    then show ?thesis using k T by simp
  qed
  ultimately show ?thesis unfolding q by (simp add: float64_round_exact)
next
  case False
  define q :: rat where "q = of_int T / of_int L"
  define k where "k = T div L"
  define r where "r = T mod L"
  have Lpos: "0 < L" using L by simp
  have "0 \<le> r" "r < L" "r \<noteq> 0"
    using False Lpos by (simp_all add: r_def mod_eq_0_iff_dvd)
  then have r: "1 \<le> r" "r \<le> L - 1" by simp_all
  have Teq: "T = L * k + r" by (simp add: k_def r_def)
  have Lr: "0 < (of_int L :: rat)" using Lpos by simp
  have qeq: "q = of_int k + of_int r / of_int L"
    using Lr by (simp add: q_def Teq field_simps)
  have Tpos: "0 < T" using False T by (cases "T = 0") simp_all
  have qpos: "0 < q" using Tpos Lr by (simp add: q_def)
  have err: "\<bar>round_pos q - q\<bar> * 2 ^ 53 < q" using qpos by (rule round_pos_err)
  have "q * of_int L = of_int T" using Lr by (simp add: q_def)
  moreover have "(of_int T :: rat) \<le> of_int (2 ^ 53)" using T by (simp only: of_int_le_iff)
  ultimately have qL: "q * of_int L \<le> 2 ^ 53" by simp
  define d where "d = \<bar>round_pos q - q\<bar>"
  have "d * 2 ^ 53 < q" using err by (simp add: d_def)
  then have "d * 2 ^ 53 * of_int L < q * of_int L"
    using Lr by (simp only: mult_less_cancel_right_pos)
  then have "(d * of_int L) * 2 ^ 53 < 1 * 2 ^ 53" using qL by (simp add: ac_simps)
  then have "d * of_int L < 1" by (simp only: mult_less_cancel_right_pos zero_less_power zero_less_numeral)
  then have "d < 1 / of_int L" using Lr by (simp add: field_simps)
  then have e: "\<bar>round_pos q - q\<bar> < 1 / of_int L" by (simp add: d_def)
  have "(of_int 1 :: rat) \<le> of_int r" "(of_int r :: rat) \<le> of_int (L - 1)"
    using r by (simp_all only: of_int_le_iff)
  then have r1: "(1::rat) \<le> of_int r" "(of_int r :: rat) \<le> of_int L - 1"
    by simp_all
  have lo: "of_int k < round_pos q"
  proof -
    have "of_int k \<le> q - 1 / of_int L"
      using r1 Lr by (simp add: qeq field_simps)
    then show ?thesis using e by (simp add: abs_less_iff)
  qed
  have hi: "round_pos q \<le> of_int k + 1"
  proof -
    have "q + 1 / of_int L \<le> of_int k + 1"
      using r1 Lr by (simp add: qeq field_simps)
    then show ?thesis using e by (simp add: abs_less_iff)
  qed
  have "\<lceil>round_pos q\<rceil> = k + 1" using lo hi by (intro ceiling_unique) simp_all
  moreover have "\<lceil>q\<rceil> = k + 1"
    using r1 Lr by (intro ceiling_unique) (simp_all add: qeq field_simps)
  moreover have "float64_round q = round_pos q" using qpos by (simp add: float64_round_def)
  ultimately show ?thesis by (simp add: q_def)
qed

subsection \<open>Signed 64-bit arithmetic\<close>

lemma sint_word_of_int_64:
  "- (2 ^ 63) \<le> k \<Longrightarrow> k < 2 ^ 63 \<Longrightarrow> sint (word_of_int k :: int64) = k"
  by (simp add: sint_sbintrunc' signed_take_bit_int_eq_self)

lemma sint_range_64: "- (2 ^ 63) \<le> sint (w :: int64)" "sint (w :: int64) < 2 ^ 63"
  using sint_ge [of w] sint_lt [of w] by simp_all

lemma sint_pred_64: "1 \<le> sint (w :: int64) \<Longrightarrow> sint (w - 1) = sint w - 1"
proof -
  assume a: "1 \<le> sint w"
  have "sint (w - 1) = signed_take_bit 63 (sint w - 1)"
    by (simp add: sint_word_ariths)
  also have "\<dots> = sint w - 1"
    using a sint_range_64 [of w] by (intro signed_take_bit_int_eq_self) simp_all
  finally show ?thesis .
qed

lemma sint_mult_64:
  "- (2 ^ 63) \<le> sint a * sint b \<Longrightarrow> sint a * sint b < 2 ^ 63 \<Longrightarrow>
     sint (a * b :: int64) = sint a * sint b"
proof -
  assume a: "- (2 ^ 63) \<le> sint a * sint b" "sint a * sint b < 2 ^ 63"
  have "sint (a * b) = signed_take_bit 63 (sint a * sint b)"
    by (simp add: sint_word_ariths)
  also have "\<dots> = sint a * sint b"
    using a by (intro signed_take_bit_int_eq_self) simp_all
  finally show ?thesis .
qed

lemma Init_in_range:
  "1 \<le> sint page \<Longrightarrow> sint limit \<le> 100 \<Longrightarrow>
     Init p page limit = p\<lparr>PageCurrent := page, PageLimit := limit, Offset := limit * (page - 1)\<rparr>"
  by (simp add: Init_def word_sless_alt)

lemma Init_page_clamp: "sint page < 1 \<Longrightarrow> Init p page limit = Init p 1 limit"
  by (simp add: Init_def word_sless_alt)

lemma Init_limit_clamp: "100 < sint limit \<Longrightarrow> Init p page limit = Init p page 100"
  by (simp add: Init_def word_sless_alt)

subsection \<open>Pagination\<close>

text \<open>
  Claim C5, as amended. \<^verbatim>\<open>Init\<close> stores \<open>limit * (page - 1)\<close> computed in \<^verbatim>\<open>int64\<close>: for
  \<open>page \<ge> 1\<close> and \<open>limit\<close> in \<open>[1, 100]\<close> the stored offset is that product with
  wrap-around, and it is the product of the integers whenever that product fits in an
  \<^verbatim>\<open>int64\<close>. A page below 1 gives the state of page 1, a limit above 100 the state of
  limit 100.
\<close>

theorem Init_offset:
  "(1 \<le> sint page \<and> 1 \<le> sint limit \<and> sint limit \<le> 100 \<longrightarrow>
      Offset (Init p page limit) = limit * (page - 1) \<and>
      (sint limit * (sint page - 1) < 2 ^ 63 \<longrightarrow>
         sint (Offset (Init p page limit)) = sint limit * (sint page - 1))) \<and>
   (sint page < 1 \<longrightarrow> Init p page limit = Init p 1 limit) \<and>
   (100 < sint limit \<longrightarrow> Init p page limit = Init p page 100)"
proof (intro conjI impI)
  assume a: "1 \<le> sint page \<and> 1 \<le> sint limit \<and> sint limit \<le> 100"
  then show o: "Offset (Init p page limit) = limit * (page - 1)"
    by (simp add: Init_in_range)
  assume b: "sint limit * (sint page - 1) < 2 ^ 63"
  have p1: "sint (page - 1) = sint page - 1" using a by (simp add: sint_pred_64)
  have "0 \<le> sint limit * (sint page - 1)" using a by simp
  then have "sint (limit * (page - 1)) = sint limit * sint (page - 1)"
    using b p1 by (intro sint_mult_64) simp_all
  then show "sint (Offset (Init p page limit)) = sint limit * (sint page - 1)"
    using o p1 by simp
next
  assume "sint page < 1"
  then show "Init p page limit = Init p 1 limit" by (rule Init_page_clamp)
next
  assume "100 < sint limit"
  then show "Init p page limit = Init p page 100" by (rule Init_limit_clamp)
qed

text \<open>The theorem at page 3 with limit 20, at page 0, and at limit 250.\<close>

theorem Init_offset_witness:
  "sint (Offset (Init zero_Pagination 3 20)) = 40 \<and>
   Init zero_Pagination 0 20 = Init zero_Pagination 1 20 \<and>
   Init zero_Pagination 3 250 = Init zero_Pagination 3 100"
  using Init_offset [of 3 20 zero_Pagination] Init_offset [of 0 20 zero_Pagination]
    Init_offset [of 3 250 zero_Pagination]
  by simp

text \<open>
  Claim C5 as stated fails where the product leaves the \<^verbatim>\<open>int64\<close> range: at page
  92233720368547760 with limit 100 the stored offset is negative.
\<close>

theorem Init_offset_overflow:
  "sint (Offset (Init zero_Pagination 92233720368547760 100)) = - 9223372036854775716 \<and>
   sint (Offset (Init zero_Pagination 92233720368547760 100))
     \<noteq> sint (100 :: int64) * (sint (92233720368547760 :: int64) - 1)"
  by (simp add: Init_def zero_Pagination_def word_sless_alt)

lemma ceiling_small: "0 < T \<Longrightarrow> T \<le> m \<Longrightarrow> \<lceil>(of_int T / of_int m :: rat)\<rceil> = 1"
proof -
  assume a: "0 < T" "T \<le> m"
  then have m: "0 < (of_int m :: rat)" by simp
  have "(of_int T :: rat) \<le> of_int m" using a by (simp only: of_int_le_iff)
  then have "(of_int T / of_int m :: rat) \<le> 1" using m by simp
  moreover have "0 < (of_int T / of_int m :: rat)" using a m by simp
  ultimately show ?thesis by (intro ceiling_unique) simp_all
qed

lemma total_pages_exact:
  assumes T: "0 \<le> T" "T \<le> 2 ^ 53" and L: "1 \<le> L"
  shows "\<lceil>float64_round (of_int T / float64_round (of_int L))\<rceil> = \<lceil>(of_int T / of_int L :: rat)\<rceil>"
proof (cases "L \<le> 2 ^ 53")
  case True
  then have "float64_round (of_int L) = of_int L" using L by (intro float64_round_exact) simp_all
  then show ?thesis using T L by (simp add: ceiling_float64_round_div)
next
  case False
  then have big: "2 ^ 53 \<le> L" by simp
  then obtain m where m: "float64_round (of_int L) = of_int m" "2 ^ 53 \<le> m"
    using float64_round_large by blast
  have "\<lceil>float64_round (of_int T / of_int m)\<rceil> = \<lceil>(of_int T / of_int m :: rat)\<rceil>"
    using T m by (intro ceiling_float64_round_div) simp_all
  also have "\<dots> = \<lceil>(of_int T / of_int L :: rat)\<rceil>"
  proof (cases "T = 0")
    case True
    then show ?thesis by simp
  next
    case False
    then have "0 < T" using T by simp
    then show ?thesis using T m big by (simp add: ceiling_small)
  qed
  finally show ?thesis using m by simp
qed

lemma ceiling_div_bounds:
  assumes "0 \<le> T" "1 \<le> L"
  shows "0 \<le> \<lceil>(of_int T / of_int L :: rat)\<rceil>" "\<lceil>(of_int T / of_int L :: rat)\<rceil> \<le> T"
proof -
  have L: "(1::rat) \<le> of_int L" using assms by simp
  have T: "(0::rat) \<le> of_int T" using assms by simp
  have "(0::rat) \<le> of_int T / of_int L" using L T by simp
  then show "0 \<le> \<lceil>(of_int T / of_int L :: rat)\<rceil>" by simp
  have "(of_int T / of_int L :: rat) \<le> of_int T / 1" using L T by (intro divide_left_mono) simp_all
  then show "\<lceil>(of_int T / of_int L :: rat)\<rceil> \<le> T" by (simp add: ceiling_le_iff)
qed

text \<open>
  Claim C6, as amended. For \<open>0 \<le> total_records \<le> 2^53\<close> and a stored limit of at least 1,
  \<^verbatim>\<open>SetTotalRecord\<close> stores the total and the exact integer ceiling of
  \<open>total_records / limit\<close>, whatever the implementation does with conversions out of
  range.
\<close>

theorem SetTotalRecord_ceiling:
  assumes "0 \<le> sint totalRecord" and "sint totalRecord \<le> 2 ^ 53" and "1 \<le> sint (PageLimit p)"
  shows "TotalRecord (SetTotalRecord oor p totalRecord) = totalRecord \<and>
         sint (TotalPage (SetTotalRecord oor p totalRecord)) =
           \<lceil>(of_int (sint totalRecord) / of_int (sint (PageLimit p)) :: rat)\<rceil>"
proof -
  define T where "T = sint totalRecord"
  define L where "L = sint (PageLimit p)"
  define c where "c = \<lceil>(of_int T / of_int L :: rat)\<rceil>"
  have TL: "0 \<le> T" "T \<le> 2 ^ 53" "1 \<le> L" using assms by (simp_all add: T_def L_def)
  have fT: "float64_round (of_int T) = of_int T" using TL by (intro float64_round_exact)
  have fL: "float64_round (of_int L) \<noteq> 0"
  proof (cases "L \<le> 2 ^ 53")
    case True
    then have "float64_round (of_int L) = of_int L" using TL by (intro float64_round_exact) simp_all
    then show ?thesis using TL by simp
  next
    case False
    then obtain m where "float64_round (of_int L) = of_int m" "2 ^ 53 \<le> m"
      using float64_round_large [of L] by auto
    then show ?thesis by simp
  qed
  have "\<lceil>float64_round (of_int T / float64_round (of_int L))\<rceil> = c"
    unfolding c_def using TL by (rule total_pages_exact)
  then have q: "math_Ceil (float64_div (float64_of_int64 totalRecord) (float64_of_int64 (PageLimit p)))
      = Finite (of_int c)"
    using fL by (simp add: float64_of_int64_def fT flip: T_def L_def del: of_int_sint)
  have c: "0 \<le> c" "c \<le> T"
    unfolding c_def using TL(1,3) by (rule ceiling_div_bounds)+
  then have c63: "c < 2 ^ 63" using TL(2) by simp
  then have "int64_of_float64 oor (Finite (of_int c)) = word_of_int c"
    using c by (simp add: trunc_def)
  moreover have "sint (word_of_int c :: int64) = c"
    using c c63 by (intro sint_word_of_int_64) simp_all
  ultimately show ?thesis
    using q by (simp add: SetTotalRecord_def c_def T_def L_def del: of_int_sint)
qed

text \<open>The theorem at 101 records with limit 50: three pages.\<close>

theorem SetTotalRecord_ceiling_witness:
  "sint (TotalPage (SetTotalRecord min_int64 (zero_Pagination\<lparr>PageLimit := 50\<rparr>) 101)) = 3"
proof -
  have "\<lceil>(101 / 50 :: rat)\<rceil> = 3" by (intro ceiling_unique) simp_all
  then show ?thesis
    using SetTotalRecord_ceiling [of 101 "zero_Pagination\<lparr>PageLimit := 50\<rparr>" min_int64]
    by (simp add: zero_Pagination_def del: of_int_sint)
qed

text \<open>
  Claim C6 as stated fails above \<open>2^53\<close>, where \<^verbatim>\<open>float64\<close> no longer holds every
  integer: \<open>2^53 + 1\<close> records with limit 1 give \<open>2^53\<close> pages.
\<close>

theorem SetTotalRecord_inexact:
  "sint (TotalPage (SetTotalRecord min_int64 (zero_Pagination\<lparr>PageLimit := 1\<rparr>) 9007199254740993))
     = 9007199254740992 \<and>
   \<lceil>(of_int (sint (9007199254740993 :: int64)) / of_int (sint (1 :: int64)) :: rat)\<rceil>
     = 9007199254740993"
  by code_simp

subsection \<open>The index calls\<close>

lemma Indexes_List_eq:
  "Indexes_List s =
     (if outage s (length (calls s)) then Inl Network else Inr (live_indexes s),
      s\<lparr>calls := calls s @ [(WriteCollection, ListIndexes)]\<rparr>)"
  by (simp add: Indexes_List_def issue_def Let_def)

lemma Indexes_DropOne_eq:
  "Indexes_DropOne n s =
     (if outage s (length (calls s)) then (Inl Network, s\<lparr>calls := calls s @ [drop_call n]\<rparr>)
      else (case server_drop n (live_indexes s) of
              Inl e \<Rightarrow> (Inl e, s\<lparr>calls := calls s @ [drop_call n]\<rparr>)
            | Inr live \<Rightarrow> (Inr (), s\<lparr>calls := calls s @ [drop_call n], live_indexes := live\<rparr>)))"
  by (simp add: Indexes_DropOne_def issue_def Let_def drop_call_def split: sum.splits)

lemma Indexes_CreateOne_eq:
  "Indexes_CreateOne m s =
     (if outage s (length (calls s)) then (Inl Network, s\<lparr>calls := calls s @ [create_call m]\<rparr>)
      else (case server_create m (live_indexes s) of
              Inl e \<Rightarrow> (Inl e, s\<lparr>calls := calls s @ [create_call m]\<rparr>)
            | Inr live \<Rightarrow>
                (Inr (index_name m), s\<lparr>calls := calls s @ [create_call m], live_indexes := live\<rparr>)))"
  by (simp add: Indexes_CreateOne_def issue_def Let_def create_call_def split: sum.splits)

lemma DropOne_frame:
  assumes "Indexes_DropOne n s = (r, s')"
  shows "calls s' = calls s @ [drop_call n]" "outage s' = outage s" "stored_docs s' = stored_docs s"
  using assms by (auto simp: Indexes_DropOne_eq split: if_splits sum.splits)

lemma DropOne_live:
  assumes "Indexes_DropOne n s = (r, s')"
  shows "live_indexes s' = live_indexes s \<or>
         (n \<noteq> ''_id_'' \<and> r = Inr () \<and> live_indexes s' = filter (\<lambda>i. fst i \<noteq> n) (live_indexes s))"
  using assms by (auto simp: Indexes_DropOne_eq server_drop_def split: if_splits sum.splits)

lemma DropOne_ok:
  assumes "Indexes_DropOne n s = (Inr u, s')"
  shows "n \<noteq> ''_id_''" "live_indexes s' = filter (\<lambda>i. fst i \<noteq> n) (live_indexes s)"
  using assms by (auto simp: Indexes_DropOne_eq server_drop_def split: if_splits sum.splits)

lemma CreateOne_frame:
  assumes "Indexes_CreateOne m s = (r, s')"
  shows "calls s' = calls s @ [create_call m]" "outage s' = outage s" "stored_docs s' = stored_docs s"
  using assms by (auto simp: Indexes_CreateOne_eq split: if_splits sum.splits)

lemma CreateOne_live:
  assumes "Indexes_CreateOne m s = (r, s')"
  shows "live_indexes s' = live_indexes s \<or>
         (index_name m \<notin> fst ` set (live_indexes s) \<and>
          live_indexes s' = live_indexes s @ [descriptor m])"
  using assms
  by (auto simp: Indexes_CreateOne_eq server_create_def descriptor_def split: if_splits sum.splits)

lemma CreateOne_ok:
  assumes "Indexes_CreateOne m s = (Inr x, s')"
  shows "descriptor m \<in> set (live_indexes s')"
  using assms
  by (auto simp: Indexes_CreateOne_eq server_create_def descriptor_def split: if_splits sum.splits)

lemma CreateOne_present:
  assumes "descriptor m \<in> set (live_indexes s)"
  shows "Indexes_CreateOne m s =
          (if outage s (length (calls s)) then Inl Network else Inr (index_name m),
           s\<lparr>calls := calls s @ [create_call m]\<rparr>)"
  using assms by (simp add: Indexes_CreateOne_eq server_create_def descriptor_def)

subsection \<open>drop_each\<close>

lemma drop_each_frame:
  "drop_each ds s = (r, s') \<Longrightarrow> outage s' = outage s \<and> stored_docs s' = stored_docs s"
proof (induction ds arbitrary: s)
  case Nil
  then show ?case by simp
next
  case (Cons d ds)
  obtain r1 s1 where d: "Indexes_DropOne d s = (r1, s1)" by (cases "Indexes_DropOne d s")
  note f = DropOne_frame [OF d]
  show ?case
  proof (cases r1)
    case (Inl e)
    then show ?thesis using Cons.prems d f by simp
  next
    case (Inr u)
    then have "drop_each ds s1 = (r, s')" using Cons.prems d by simp
    then show ?thesis using Cons.IH f by simp
  qed
qed

lemma drop_each_calls:
  "drop_each ds s = (r, s') \<Longrightarrow>
     \<exists>k\<le>length ds. calls s' = calls s @ map drop_call (take k ds) \<and> (r = Inr () \<longrightarrow> k = length ds)"
proof (induction ds arbitrary: s)
  case Nil
  then show ?case by simp
next
  case (Cons d ds)
  obtain r1 s1 where d: "Indexes_DropOne d s = (r1, s1)" by (cases "Indexes_DropOne d s")
  note f = DropOne_frame [OF d]
  show ?case
  proof (cases r1)
    case (Inl e)
    then have "calls s' = calls s @ map drop_call (take 1 (d # ds))" "r \<noteq> Inr ()"
      using Cons.prems d f by auto
    then show ?thesis by (intro exI [of _ 1]) simp
  next
    case (Inr u)
    then have "drop_each ds s1 = (r, s')" using Cons.prems d by simp
    then obtain k where k: "k \<le> length ds" "calls s' = calls s1 @ map drop_call (take k ds)"
      "r = Inr () \<longrightarrow> k = length ds" using Cons.IH by blast
    then show ?thesis using f by (intro exI [of _ "Suc k"]) simp
  qed
qed

lemma drop_each_live:
  "drop_each ds s = (r, s') \<Longrightarrow>
     filter (\<lambda>i. fst i \<notin> set ds) (live_indexes s') = filter (\<lambda>i. fst i \<notin> set ds) (live_indexes s)
     \<and> set (live_indexes s') \<subseteq> set (live_indexes s)
     \<and> (r = Inr () \<longrightarrow> ''_id_'' \<notin> set ds \<and>
           live_indexes s' = filter (\<lambda>i. fst i \<notin> set ds) (live_indexes s))"
proof (induction ds arbitrary: s)
  case Nil
  then show ?case by simp
next
  case (Cons d ds)
  obtain r1 s1 where d: "Indexes_DropOne d s = (r1, s1)" by (cases "Indexes_DropOne d s")
  have keep: "filter (\<lambda>i. fst i \<notin> set (d # ds)) (live_indexes s1)
      = filter (\<lambda>i. fst i \<notin> set (d # ds)) (live_indexes s)"
    using DropOne_live [OF d] by (auto intro: filter_cong)
  have sub: "set (live_indexes s1) \<subseteq> set (live_indexes s)"
    using DropOne_live [OF d] by auto
  show ?case
  proof (cases r1)
    case (Inl e)
    then have "s' = s1" "r \<noteq> Inr ()" using Cons.prems d by auto
    then show ?thesis using keep sub by simp
  next
    case (Inr u)
    then have rest: "drop_each ds s1 = (r, s')" using Cons.prems d by simp
    note ih = Cons.IH [OF rest]
    have ok: "d \<noteq> ''_id_''" "live_indexes s1 = filter (\<lambda>i. fst i \<noteq> d) (live_indexes s)"
      using DropOne_ok d Inr by blast+
    have "filter (\<lambda>i. fst i \<notin> set (d # ds)) (live_indexes s')
        = filter (\<lambda>i. fst i \<noteq> d) (filter (\<lambda>i. fst i \<notin> set ds) (live_indexes s'))"
      by (auto intro: filter_cong)
    also have "\<dots> = filter (\<lambda>i. fst i \<noteq> d) (filter (\<lambda>i. fst i \<notin> set ds) (live_indexes s1))"
      using ih by simp
    also have "\<dots> = filter (\<lambda>i. fst i \<notin> set (d # ds)) (live_indexes s1)"
      by (auto intro: filter_cong)
    finally have a: "filter (\<lambda>i. fst i \<notin> set (d # ds)) (live_indexes s')
        = filter (\<lambda>i. fst i \<notin> set (d # ds)) (live_indexes s)" using keep by simp
    have b: "set (live_indexes s') \<subseteq> set (live_indexes s)" using ih sub by blast
    have c: "r = Inr () \<longrightarrow> ''_id_'' \<notin> set (d # ds) \<and>
           live_indexes s' = filter (\<lambda>i. fst i \<notin> set (d # ds)) (live_indexes s)"
    proof
      assume "r = Inr ()"
      then have "''_id_'' \<notin> set ds" "live_indexes s' = filter (\<lambda>i. fst i \<notin> set ds) (live_indexes s1)"
        using ih by simp_all
      then show "''_id_'' \<notin> set (d # ds) \<and>
           live_indexes s' = filter (\<lambda>i. fst i \<notin> set (d # ds)) (live_indexes s)"
        using ok by (auto intro: filter_cong)
    qed
    show ?thesis using a b c by blast
  qed
qed

subsection \<open>create_each\<close>

lemma create_each_frame:
  "create_each xs s = (r, s') \<Longrightarrow> outage s' = outage s \<and> stored_docs s' = stored_docs s"
proof (induction xs arbitrary: s)
  case Nil
  then show ?case by simp
next
  case (Cons x xs)
  obtain r1 s1 where c: "Indexes_CreateOne x s = (r1, s1)" by (cases "Indexes_CreateOne x s")
  note f = CreateOne_frame [OF c]
  show ?case
  proof (cases r1)
    case (Inl e)
    then show ?thesis using Cons.prems c f by simp
  next
    case (Inr u)
    then have "create_each xs s1 = (r, s')" using Cons.prems c by simp
    then show ?thesis using Cons.IH f by simp
  qed
qed

lemma create_each_calls:
  "create_each xs s = (r, s') \<Longrightarrow>
     \<exists>k\<le>length xs. calls s' = calls s @ map create_call (take k xs) \<and> (r = Inr () \<longrightarrow> k = length xs)"
proof (induction xs arbitrary: s)
  case Nil
  then show ?case by simp
next
  case (Cons x xs)
  obtain r1 s1 where c: "Indexes_CreateOne x s = (r1, s1)" by (cases "Indexes_CreateOne x s")
  note f = CreateOne_frame [OF c]
  show ?case
  proof (cases r1)
    case (Inl e)
    then have "calls s' = calls s @ map create_call (take 1 (x # xs))" "r \<noteq> Inr ()"
      using Cons.prems c f by auto
    then show ?thesis by (intro exI [of _ 1]) simp
  next
    case (Inr u)
    then have "create_each xs s1 = (r, s')" using Cons.prems c by simp
    then obtain k where k: "k \<le> length xs" "calls s' = calls s1 @ map create_call (take k xs)"
      "r = Inr () \<longrightarrow> k = length xs" using Cons.IH by blast
    then show ?thesis using f by (intro exI [of _ "Suc k"]) simp
  qed
qed

lemma create_each_live:
  "create_each xs s = (r, s') \<Longrightarrow>
     (\<exists>extra. live_indexes s' = live_indexes s @ extra
        \<and> set extra \<subseteq> descriptor ` set xs
        \<and> fst ` set extra \<inter> fst ` set (live_indexes s) = {})
     \<and> (r = Inr () \<longrightarrow> descriptor ` set xs \<subseteq> set (live_indexes s'))"
proof (induction xs arbitrary: s)
  case Nil
  then show ?case by simp
next
  case (Cons x xs)
  obtain r1 s1 where c: "Indexes_CreateOne x s = (r1, s1)" by (cases "Indexes_CreateOne x s")
  have one: "\<exists>e1. live_indexes s1 = live_indexes s @ e1 \<and> set e1 \<subseteq> {descriptor x}
      \<and> fst ` set e1 \<inter> fst ` set (live_indexes s) = {}"
    using CreateOne_live [OF c]
  proof
    assume "live_indexes s1 = live_indexes s"
    then show ?thesis by (intro exI [of _ "[]"]) simp
  next
    assume "index_name x \<notin> fst ` set (live_indexes s) \<and>
          live_indexes s1 = live_indexes s @ [descriptor x]"
    then show ?thesis by (intro exI [of _ "[descriptor x]"]) (simp add: descriptor_def)
  qed
  then obtain e1 where e1: "live_indexes s1 = live_indexes s @ e1" "set e1 \<subseteq> {descriptor x}"
      "fst ` set e1 \<inter> fst ` set (live_indexes s) = {}" by blast
  show ?case
  proof (cases r1)
    case (Inl e)
    then have "s' = s1" "r \<noteq> Inr ()" using Cons.prems c by auto
    then show ?thesis using e1 by (intro conjI exI [of _ e1]) auto
  next
    case (Inr u)
    then have rest: "create_each xs s1 = (r, s')" using Cons.prems c by simp
    from Cons.IH [OF rest] obtain e2 where e2: "live_indexes s' = live_indexes s1 @ e2"
      "set e2 \<subseteq> descriptor ` set xs" "fst ` set e2 \<inter> fst ` set (live_indexes s1) = {}"
      and ok: "r = Inr () \<longrightarrow> descriptor ` set xs \<subseteq> set (live_indexes s')" by blast
    have here: "descriptor x \<in> set (live_indexes s1)" using CreateOne_ok c Inr by blast
    have "live_indexes s' = live_indexes s @ (e1 @ e2)" using e1 e2 by simp
    moreover have "set (e1 @ e2) \<subseteq> descriptor ` set (x # xs)" using e1 e2 by auto
    moreover have "fst ` set (e1 @ e2) \<inter> fst ` set (live_indexes s) = {}"
      using e1 e2 by (auto simp: image_Un)
    moreover have "r = Inr () \<longrightarrow> descriptor ` set (x # xs) \<subseteq> set (live_indexes s')"
      using ok here e2 by auto
    ultimately show ?thesis by blast
  qed
qed

lemma create_each_present:
  "descriptor ` set xs \<subseteq> set (live_indexes s) \<Longrightarrow> create_each xs s = (r, s') \<Longrightarrow>
     live_indexes s' = live_indexes s \<and> (r = Inr () \<or> r = Inl Network) \<and>
     ((\<forall>n\<ge>length (calls s). \<not> outage s n) \<longrightarrow> r = Inr ())"
proof (induction xs arbitrary: s)
  case Nil
  then show ?case by simp
next
  case (Cons x xs)
  have x: "descriptor x \<in> set (live_indexes s)" using Cons.prems by simp
  note eq = CreateOne_present [OF x]
  show ?case
  proof (cases "outage s (length (calls s))")
    case True
    then show ?thesis using Cons.prems eq by auto
  next
    case False
    let ?s1 = "s\<lparr>calls := calls s @ [create_call x]\<rparr>"
    have rest: "create_each xs ?s1 = (r, s')" using Cons.prems eq False by simp
    have "descriptor ` set xs \<subseteq> set (live_indexes ?s1)" using Cons.prems by simp
    from Cons.IH [OF this rest] show ?thesis by auto
  qed
qed

subsection \<open>The first variant of the reconciler, phase by phase\<close>

lemma set_map_insert [simp]: "set (map_insert k m) = insert k (set m)"
  by (auto simp: map_insert_def)

lemma set_existing_names:
  "set (existing_names cursor acc) = set acc \<union> (fst ` set cursor - {''_id_''})"
  by (induction cursor arbitrary: acc) auto

lemma set_expected_names:
  "set (expected_names xs acc) = set acc \<union> {n. \<exists>m\<in>set xs. deref_Name m = Some n}"
  by (induction xs arbitrary: acc) (auto simp: deref_Name_def split: option.splits)

lemma set_range_keys [simp]: "set (range_keys rank m) = set m"
  by (simp add: range_keys_def)

lemma id_not_to_drop: "''_id_'' \<notin> set (names_to_drop rank indexes live)"
  by (simp add: names_to_drop_def set_existing_names)

lemma drop_unexpected_drop_each:
  "snd (drop_unexpected names expected s) = snd (drop_each (filter (\<lambda>n. n \<notin> set expected) names) s)
   \<and> (fst (drop_unexpected names expected s) = Inr ())
       = (fst (drop_each (filter (\<lambda>n. n \<notin> set expected) names) s) = Inr ())"
proof (induction names arbitrary: s)
  case Nil
  then show ?case by simp
next
  case (Cons n names)
  show ?case
  proof (cases "n \<in> set expected")
    case True
    then show ?thesis using Cons.IH by simp
  next
    case False
    obtain r1 s1 where d: "Indexes_DropOne n s = (r1, s1)" by (cases "Indexes_DropOne n s")
    show ?thesis using False d Cons.IH [of s1] by (cases r1) simp_all
  qed
qed

lemma create_expected_create_each:
  "snd (create_expected xs s) = snd (create_each xs s)
   \<and> fst (create_expected xs s)
       = (case fst (create_each xs s) of
            Inl e \<Rightarrow> Inl (Wrapped ''create index failed'' e) | Inr u \<Rightarrow> Inr u)"
proof (induction xs arbitrary: s)
  case Nil
  then show ?case by simp
next
  case (Cons x xs)
  obtain r1 s1 where c: "Indexes_CreateOne x s = (r1, s1)" by (cases "Indexes_CreateOne x s")
  show ?case using c Cons.IH [of s1] by (cases r1) simp_all
qed

lemma EnsureIndexes_cases:
  assumes "EnsureIndexes rank indexes s = (r, s')"
  obtains
    (list_failed) "outage s (length (calls s))" "s' = s\<lparr>calls := calls s @ [list_call]\<rparr>"
      "r = Inl (Wrapped ''list indexes failed'' Network)"
  | (drop_failed) r2 where "\<not> outage s (length (calls s))" "r2 \<noteq> Inr ()" "r \<noteq> Inr ()"
      "drop_each (names_to_drop rank indexes (live_indexes s)) (s\<lparr>calls := calls s @ [list_call]\<rparr>) = (r2, s')"
  | (dropped) s2 r3 where "\<not> outage s (length (calls s))"
      "drop_each (names_to_drop rank indexes (live_indexes s)) (s\<lparr>calls := calls s @ [list_call]\<rparr>) = (Inr (), s2)"
      "create_each indexes s2 = (r3, s')"
      "r = (case r3 of Inl e \<Rightarrow> Inl (Wrapped ''create index failed'' e) | Inr u \<Rightarrow> Inr u)"
proof (cases "outage s (length (calls s))")
  case True
  then show ?thesis using assms list_failed
    by (simp add: EnsureIndexes_def Indexes_List_eq list_call_def)
next
  case False
  let ?s1 = "s\<lparr>calls := calls s @ [list_call]\<rparr>"
  let ?ds = "names_to_drop rank indexes (live_indexes s)"
  let ?names = "range_keys rank (existing_names (live_indexes s) [])"
  let ?expected = "expected_names indexes []"
  obtain r2 s2 where de: "drop_each ?ds ?s1 = (r2, s2)" by (cases "drop_each ?ds ?s1")
  obtain q2 t2 where du: "drop_unexpected ?names ?expected ?s1 = (q2, t2)"
    by (cases "drop_unexpected ?names ?expected ?s1")
  have rel: "t2 = s2" "(q2 = Inr ()) = (r2 = Inr ())"
    using drop_unexpected_drop_each [of ?names ?expected ?s1] de du
    by (simp_all add: names_to_drop_def)
  show ?thesis
  proof (cases q2)
    case (Inl e)
    then have "r = Inl e" "s' = s2" using assms False du rel
      by (simp_all add: EnsureIndexes_def Indexes_List_eq list_call_def Let_def)
    moreover have "r2 \<noteq> Inr ()" using rel Inl by auto
    ultimately show ?thesis using drop_failed [of r2] False de by simp
  next
    case (Inr u)
    then have r2: "r2 = Inr ()" using rel by simp
    obtain r3 s3 where ce: "create_each indexes s2 = (r3, s3)" by (cases "create_each indexes s2")
    have "(r, s') = create_expected indexes s2" using assms False du rel Inr
      by (simp add: EnsureIndexes_def Indexes_List_eq list_call_def Let_def)
    then have "s' = s3" "r = (case r3 of Inl e \<Rightarrow> Inl (Wrapped ''create index failed'' e) | Inr u \<Rightarrow> Inr u)"
      using create_expected_create_each [of indexes s2] ce
      by (metis fst_conv snd_conv)+
    then show ?thesis using dropped [of s2 r3] False de r2 ce by simp
  qed
qed

lemma call_simps [simp]:
  "drop_call n \<noteq> list_call" "create_call m \<noteq> list_call" "drop_call n \<noteq> create_call m"
  "list_call \<noteq> drop_call n" "list_call \<noteq> create_call m" "create_call m \<noteq> drop_call n"
  "(drop_call n = drop_call n') = (n = n')" "(create_call m = create_call m') = (m = m')"
  by (auto simp: drop_call_def create_call_def list_call_def)

lemma id_entries_filter:
  "''_id_'' \<notin> set ds \<Longrightarrow> id_entries (filter (\<lambda>i. fst i \<notin> set ds) live) = id_entries live"
  unfolding id_entries_def by (induction live) auto

lemma drop_phase:
  assumes id: "''_id_'' \<notin> set ds"
      and d: "drop_each ds (s\<lparr>calls := calls s @ [list_call]\<rparr>) = (r2, s2)"
  shows "\<exists>k\<le>length ds. issued s s2 = list_call # map drop_call (take k ds) \<and> (r2 = Inr () \<longrightarrow> k = length ds)"
    and "id_entries (live_indexes s2) = id_entries (live_indexes s)"
    and "outage s2 = outage s"
    and "length (calls s) \<le> length (calls s2)"
proof -
  from drop_each_calls [OF d] obtain k where k: "k \<le> length ds"
    "calls s2 = (calls s @ [list_call]) @ map drop_call (take k ds)" "r2 = Inr () \<longrightarrow> k = length ds"
    by auto
  then have "issued s s2 = list_call # map drop_call (take k ds)" by (simp add: issued_def)
  then show "\<exists>k\<le>length ds. issued s s2 = list_call # map drop_call (take k ds) \<and> (r2 = Inr () \<longrightarrow> k = length ds)"
    using k by blast
  show "length (calls s) \<le> length (calls s2)" using k by simp
  have "filter (\<lambda>i. fst i \<notin> set ds) (live_indexes s2) = filter (\<lambda>i. fst i \<notin> set ds) (live_indexes s)"
    using drop_each_live [OF d] by simp
  then have "id_entries (filter (\<lambda>i. fst i \<notin> set ds) (live_indexes s2))
      = id_entries (filter (\<lambda>i. fst i \<notin> set ds) (live_indexes s))" by simp
  then show "id_entries (live_indexes s2) = id_entries (live_indexes s)"
    using id by (simp add: id_entries_filter)
  show "outage s2 = outage s" using drop_each_frame [OF d] by simp
qed

lemma create_phase:
  assumes c: "create_each cs s2 = (r3, s3)"
  shows "\<exists>j\<le>length cs. calls s3 = calls s2 @ map create_call (take j cs) \<and> (r3 = Inr () \<longrightarrow> j = length cs)"
    and "''_id_'' \<in> fst ` set (live_indexes s2) \<Longrightarrow> id_entries (live_indexes s3) = id_entries (live_indexes s2)"
proof -
  show "\<exists>j\<le>length cs. calls s3 = calls s2 @ map create_call (take j cs) \<and> (r3 = Inr () \<longrightarrow> j = length cs)"
    using create_each_calls [OF c] .
  assume id: "''_id_'' \<in> fst ` set (live_indexes s2)"
  from create_each_live [OF c] obtain extra where e: "live_indexes s3 = live_indexes s2 @ extra"
    "fst ` set extra \<inter> fst ` set (live_indexes s2) = {}" by blast
  then have "\<forall>i\<in>set extra. fst i \<noteq> ''_id_''" using id by (metis disjoint_iff imageI)
  then have "filter (\<lambda>i. fst i = ''_id_'') extra = []" by (simp add: filter_empty_conv)
  then show "id_entries (live_indexes s3) = id_entries (live_indexes s2)"
    using e by (simp add: id_entries_def)
qed

lemma entries_named_mem: "n \<in> fst ` set live \<longleftrightarrow> filter (\<lambda>i. fst i = n) live \<noteq> []"
  by (force simp: filter_empty_conv)

lemma id_entries_mem: "''_id_'' \<in> fst ` set live \<longleftrightarrow> id_entries live \<noteq> []"
  unfolding id_entries_def by (rule entries_named_mem)

text \<open>What a run of the shape list, drops, creates guarantees for the primary-key index.\<close>

lemma run_id_untouched:
  assumes id: "''_id_'' \<notin> set ds"
      and d: "drop_each ds (s\<lparr>calls := calls s @ [list_call]\<rparr>) = (r2, s2)"
      and c: "s3 = s2 \<or> (\<exists>r3. create_each cs s2 = (r3, s3))"
  shows "drop_call ''_id_'' \<notin> set (issued s s3)"
    and "\<forall>m. create_call m \<in> set (issued s s3) \<longrightarrow> m \<in> set cs"
    and "''_id_'' \<in> fst ` set (live_indexes s) \<longrightarrow> id_entries (live_indexes s3) = id_entries (live_indexes s)"
    and "\<exists>ds' cs'. issued s s3 = list_call # map drop_call ds' @ map create_call cs'"
proof -
  from drop_phase [OF id d] obtain k where k: "issued s s2 = list_call # map drop_call (take k ds)"
    and ide: "id_entries (live_indexes s2) = id_entries (live_indexes s)"
    and len: "length (calls s) \<le> length (calls s2)" by blast
  have calls2: "calls s2 = calls s @ issued s s2"
    using len drop_each_calls [OF d] by (auto simp: issued_def)
  from c have "\<exists>j. issued s s3 = list_call # map drop_call (take k ds) @ map create_call (take j cs)
      \<and> (''_id_'' \<in> fst ` set (live_indexes s) \<longrightarrow> id_entries (live_indexes s3) = id_entries (live_indexes s))"
  proof
    assume "s3 = s2"
    then show ?thesis using k ide by (intro exI [of _ 0]) simp
  next
    assume "\<exists>r3. create_each cs s2 = (r3, s3)"
    then obtain r3 where c3: "create_each cs s2 = (r3, s3)" by blast
    from create_phase(1) [OF c3] obtain j where "calls s3 = calls s2 @ map create_call (take j cs)" by blast
    then have "calls s3 = calls s @ (issued s s2 @ map create_call (take j cs))" using calls2 by simp
    then have "issued s s3 = issued s s2 @ map create_call (take j cs)" by (simp add: issued_def)
    moreover have "''_id_'' \<in> fst ` set (live_indexes s) \<longrightarrow> id_entries (live_indexes s3) = id_entries (live_indexes s)"
      using create_phase(2) [OF c3] ide by (simp add: id_entries_mem)
    ultimately show ?thesis using k by (intro exI [of _ j]) simp
  qed
  then obtain j where j: "issued s s3 = list_call # map drop_call (take k ds) @ map create_call (take j cs)"
    and l: "''_id_'' \<in> fst ` set (live_indexes s) \<longrightarrow> id_entries (live_indexes s3) = id_entries (live_indexes s)"
    by blast
  show "''_id_'' \<in> fst ` set (live_indexes s) \<longrightarrow> id_entries (live_indexes s3) = id_entries (live_indexes s)"
    by (rule l)
  show "drop_call ''_id_'' \<notin> set (issued s s3)"
    using id j by (auto dest: in_set_takeD)
  show "\<forall>m. create_call m \<in> set (issued s s3) \<longrightarrow> m \<in> set cs"
    using j by (auto dest: in_set_takeD)
  show "\<exists>ds' cs'. issued s s3 = list_call # map drop_call ds' @ map create_call cs'"
    using j by blast
qed

lemma list_only_id_untouched:
  assumes "s' = s\<lparr>calls := calls s @ [list_call]\<rparr>"
  shows "drop_call ''_id_'' \<notin> set (issued s s')"
    and "\<forall>m. create_call m \<in> set (issued s s') \<longrightarrow> m \<in> set cs"
    and "''_id_'' \<in> fst ` set (live_indexes s) \<longrightarrow> id_entries (live_indexes s') = id_entries (live_indexes s)"
    and "\<exists>ds' cs'. issued s s' = list_call # map drop_call ds' @ map create_call cs'"
proof -
  have i: "issued s s' = [list_call]" using assms by (simp add: issued_def)
  show "drop_call ''_id_'' \<notin> set (issued s s')" using i by simp
  show "\<forall>m. create_call m \<in> set (issued s s') \<longrightarrow> m \<in> set cs" using i by simp
  show "''_id_'' \<in> fst ` set (live_indexes s) \<longrightarrow> id_entries (live_indexes s') = id_entries (live_indexes s)"
    using assms by simp
  show "\<exists>ds' cs'. issued s s' = list_call # map drop_call ds' @ map create_call cs'"
    using i by (intro exI [of _ "[]"]) simp
qed

lemma EnsureIndexes_id_untouched:
  assumes "EnsureIndexes rank indexes s = (r, s')"
  shows "drop_call ''_id_'' \<notin> set (issued s s')
    \<and> (\<forall>m. create_call m \<in> set (issued s s') \<longrightarrow> m \<in> set indexes)
    \<and> (''_id_'' \<in> fst ` set (live_indexes s) \<longrightarrow> id_entries (live_indexes s') = id_entries (live_indexes s))
    \<and> (\<exists>ds' cs'. issued s s' = list_call # map drop_call ds' @ map create_call cs')"
  using assms
proof (cases rule: EnsureIndexes_cases)
  case list_failed
  from list_only_id_untouched [OF list_failed(2)] show ?thesis by blast
next
  case (drop_failed r2)
  have "s' = s' \<or> (\<exists>r3. create_each indexes s' = (r3, s'))" by simp
  from run_id_untouched [OF id_not_to_drop drop_failed(4) this] show ?thesis by blast
next
  case (dropped s2 r3)
  then have "s' = s2 \<or> (\<exists>r3. create_each indexes s2 = (r3, s'))" by blast
  from run_id_untouched [OF id_not_to_drop dropped(2) this] show ?thesis by blast
qed

subsection \<open>The second variant of the reconciler\<close>

lemma set_sift: "sift x front = Some front' \<Longrightarrow> set front' = insert x (set front)"
proof (induction front arbitrary: front')
  case Nil
  then show ?case by auto
next
  case (Cons y front)
  show ?case
  proof (cases "less_by_name x y")
    case None
    then show ?thesis using Cons.prems by simp
  next
    case (Some b)
    show ?thesis
    proof (cases b)
      case True
      then obtain f where f: "sift x front = Some f" "front' = y # f"
        using Cons.prems Some by (auto split: option.splits)
      then show ?thesis using Cons.IH [OF f(1)] by auto
    next
      case False
      then show ?thesis using Cons.prems Some by auto
    qed
  qed
qed

lemma set_insertion_sort:
  "insertion_sort xs front = Some ys \<Longrightarrow> set ys = set xs \<union> set front"
proof (induction xs arbitrary: front)
  case Nil
  then show ?case by auto
next
  case (Cons x xs)
  then obtain front' where f: "sift x front = Some front'" "insertion_sort xs front' = Some ys"
    by (auto split: option.splits)
  then show ?case using Cons.IH [OF f(2)] set_sift [OF f(1)] by auto
qed

lemma set_sort_Slice: "sort_Slice indexes = Some xs \<Longrightarrow> set xs = set indexes"
  by (simp add: sort_Slice_def set_insertion_sort)

lemma set_scan_cursor:
  "scan_cursor cur xs acc = Some ds \<Longrightarrow> set ds \<subseteq> set acc \<union> (fst ` set cur - {''_id_''})"
proof (induction cur arbitrary: acc)
  case Nil
  then show ?case by simp
next
  case (Cons index cur)
  show ?case
  proof (cases "fst index = ''_id_''")
    case True
    then have "scan_cursor cur xs acc = Some ds" using Cons.prems by simp
    from Cons.IH [OF this] show ?thesis by auto
  next
    case False
    then obtain b where "scan_cursor cur xs (if b then acc @ [fst index] else acc) = Some ds"
      using Cons.prems by (auto split: option.splits)
    from Cons.IH [OF this] show ?thesis using False by (auto split: if_splits)
  qed
qed

lemma id_not_scanned: "scan_cursor cur xs [] = Some ds \<Longrightarrow> ''_id_'' \<notin> set ds"
  using set_scan_cursor [of cur xs "[]" ds] by auto

lemma EnsureIndexes2_cases:
  assumes "EnsureIndexes2 indexes s = (r, s')"
  obtains
    (list_failed) "outage s (length (calls s))" "s' = s\<lparr>calls := calls s @ [list_call]\<rparr>"
      "r = Inl LogFatal"
  | (panicked) "\<not> outage s (length (calls s))" "s' = s\<lparr>calls := calls s @ [list_call]\<rparr>"
      "r = Inl NilDereference"
  | (drop_failed) xs ds e where "\<not> outage s (length (calls s))"
      "sort_Slice indexes = Some xs" "scan_cursor (live_indexes s) xs [] = Some ds"
      "drop_each ds (s\<lparr>calls := calls s @ [list_call]\<rparr>) = (Inl e, s')" "r = Inl e"
  | (dropped) xs ds s2 where "\<not> outage s (length (calls s))"
      "sort_Slice indexes = Some xs" "scan_cursor (live_indexes s) xs [] = Some ds"
      "drop_each ds (s\<lparr>calls := calls s @ [list_call]\<rparr>) = (Inr (), s2)"
      "create_each xs s2 = (r, s')"
proof (cases "outage s (length (calls s))")
  case True
  then show ?thesis using assms list_failed
    by (simp add: EnsureIndexes2_def Indexes_List_eq list_call_def)
next
  case False
  let ?s1 = "s\<lparr>calls := calls s @ [list_call]\<rparr>"
  show ?thesis
  proof (cases "sort_Slice indexes")
    case None
    then show ?thesis using assms False panicked
      by (simp add: EnsureIndexes2_def Indexes_List_eq list_call_def)
  next
    case (Some xs)
    note xs = this
    show ?thesis
    proof (cases "scan_cursor (live_indexes s) xs []")
      case None
      then show ?thesis using assms False xs panicked
        by (simp add: EnsureIndexes2_def Indexes_List_eq list_call_def)
    next
      case (Some ds)
      obtain r2 s2 where de: "drop_each ds ?s1 = (r2, s2)" by (cases "drop_each ds ?s1")
      show ?thesis
      proof (cases r2)
        case (Inl e)
        then have "r = Inl e" "s' = s2" using assms False xs Some de
          by (simp_all add: EnsureIndexes2_def Indexes_List_eq list_call_def)
        then show ?thesis using drop_failed [of xs ds e] False xs Some de Inl by simp
      next
        case (Inr u)
        then have "create_each xs s2 = (r, s')" using assms False xs Some de
          by (simp add: EnsureIndexes2_def Indexes_List_eq list_call_def)
        then show ?thesis using dropped [of xs ds s2] False xs Some de Inr by simp
      qed
    qed
  qed
qed

lemma EnsureIndexes2_id_untouched:
  assumes "EnsureIndexes2 indexes s = (r, s')"
  shows "drop_call ''_id_'' \<notin> set (issued s s')
    \<and> (\<forall>m. create_call m \<in> set (issued s s') \<longrightarrow> m \<in> set indexes)
    \<and> (''_id_'' \<in> fst ` set (live_indexes s) \<longrightarrow> id_entries (live_indexes s') = id_entries (live_indexes s))
    \<and> (\<exists>ds' cs'. issued s s' = list_call # map drop_call ds' @ map create_call cs')"
  using assms
proof (cases rule: EnsureIndexes2_cases)
  case list_failed
  from list_only_id_untouched [OF list_failed(2)] show ?thesis by blast
next
  case panicked
  from list_only_id_untouched [OF panicked(2)] show ?thesis by blast
next
  case (drop_failed xs ds e)
  have "s' = s' \<or> (\<exists>r3. create_each indexes s' = (r3, s'))" by simp
  from run_id_untouched [OF id_not_scanned [OF drop_failed(3)] drop_failed(4) this]
  show ?thesis by blast
next
  case (dropped xs ds s2)
  then have "s' = s2 \<or> (\<exists>r3. create_each xs s2 = (r3, s'))" by blast
  from run_id_untouched [OF id_not_scanned [OF dropped(3)] dropped(4) this]
  show ?thesis using set_sort_Slice [OF dropped(2)] by blast
qed

subsection \<open>The scenario of the specification\<close>

lemma scenario_run: "EnsureIndexes rank [index_A, index_B] live_AC = (Inr (), after_AB)"
  by (simp add: EnsureIndexes_def Indexes_List_eq Indexes_CreateOne_eq Indexes_DropOne_eq
      server_create_def server_drop_def index_name_def index_A_def index_B_def named_index_def
      live_AC_def after_AB_def range_keys_def create_call_def drop_call_def map_insert_def)

lemma scenario_run2: "EnsureIndexes2 [index_A, index_B] live_AC = (Inr (), after_AB)"
  by (simp add: EnsureIndexes2_def Indexes_List_eq Indexes_CreateOne_eq Indexes_DropOne_eq
      server_create_def server_drop_def index_name_def index_A_def index_B_def named_index_def
      live_AC_def after_AB_def sort_Slice_def less_by_name_def deref_Name_def
      create_call_def drop_call_def)

subsection \<open>The primary-key index\<close>

text \<open>
  Claim C3. Whatever the desired set, the live set and the faults of the store, neither
  variant of \<^verbatim>\<open>EnsureIndexes\<close> issues a drop of the index \<^verbatim>\<open>_id_\<close>; the only creates it
  issues are those of the descriptors it was given, so with \<^verbatim>\<open>_id_\<close> absent from the
  desired set nothing is created under that name at the caller's request; and where the
  store has the primary-key index, its entry is the same after the run.
\<close>

theorem EnsureIndexes_keeps_primary_key:
  "(WriteCollection, DropOne ''_id_'') \<notin> set (issued s (snd (EnsureIndexes rank indexes s))) \<and>
   (\<forall>m. (WriteCollection, CreateOne m) \<in> set (issued s (snd (EnsureIndexes rank indexes s)))
      \<longrightarrow> m \<in> set indexes) \<and>
   (''_id_'' \<in> fst ` set (live_indexes s) \<longrightarrow>
      id_entries (live_indexes (snd (EnsureIndexes rank indexes s))) = id_entries (live_indexes s)) \<and>
   (WriteCollection, DropOne ''_id_'') \<notin> set (issued s (snd (EnsureIndexes2 indexes s))) \<and>
   (\<forall>m. (WriteCollection, CreateOne m) \<in> set (issued s (snd (EnsureIndexes2 indexes s)))
      \<longrightarrow> m \<in> set indexes) \<and>
   (''_id_'' \<in> fst ` set (live_indexes s) \<longrightarrow>
      id_entries (live_indexes (snd (EnsureIndexes2 indexes s))) = id_entries (live_indexes s))"
proof -
  obtain r s' where a: "EnsureIndexes rank indexes s = (r, s')"
    by (cases "EnsureIndexes rank indexes s")
  obtain q t' where b: "EnsureIndexes2 indexes s = (q, t')"
    by (cases "EnsureIndexes2 indexes s")
  show ?thesis
    using EnsureIndexes_id_untouched [OF a] EnsureIndexes2_id_untouched [OF b]
    unfolding a b drop_call_def create_call_def by simp
qed

text \<open>The theorem on the scenario's store, whose desired set does not mention \<^verbatim>\<open>_id_\<close>.\<close>

theorem EnsureIndexes_keeps_primary_key_witness:
  "''_id_'' \<in> fst ` set (live_indexes live_AC) \<and>
   (WriteCollection, CreateOne index_A)
      \<in> set (issued live_AC (snd (EnsureIndexes (\<lambda>_. 0) [index_A, index_B] live_AC))) \<and>
   index_A \<in> set [index_A, index_B] \<and>
   (WriteCollection, DropOne ''_id_'')
      \<notin> set (issued live_AC (snd (EnsureIndexes (\<lambda>_. 0) [index_A, index_B] live_AC))) \<and>
   id_entries (live_indexes (snd (EnsureIndexes (\<lambda>_. 0) [index_A, index_B] live_AC)))
      = [(''_id_'', [(''_id'', 1)])] \<and>
   id_entries (live_indexes (snd (EnsureIndexes2 [index_A, index_B] live_AC)))
      = [(''_id_'', [(''_id'', 1)])]"
proof -
  have a: "''_id_'' \<in> fst ` set (live_indexes live_AC)" by (simp add: live_AC_def)
  have b: "id_entries (live_indexes live_AC) = [(''_id_'', [(''_id'', 1)])]"
    by (simp add: live_AC_def id_entries_def)
  have c: "(WriteCollection, CreateOne index_A)
      \<in> set (issued live_AC (snd (EnsureIndexes (\<lambda>_. 0) [index_A, index_B] live_AC)))"
    by (simp add: scenario_run issued_def after_AB_def) (simp add: live_AC_def)
  show ?thesis
    using EnsureIndexes_keeps_primary_key [of live_AC "\<lambda>_. 0" "[index_A, index_B]"] a b c
    by simp
qed

subsection \<open>Descriptors without a name\<close>






lemma format_int_1: "format_int 1 = ''1''"
  by code_simp

lemma EnsureIndexes_unnamed_run:
  "EnsureIndexes rank [unnamed_index] empty_store =
     (Inr (),
      empty_store\<lparr>calls := [(WriteCollection, ListIndexes), (WriteCollection, CreateOne unnamed_index)],
                   live_indexes := [(''_id_'', [(''_id'', 1)]), (''field_1'', [(''field'', 1)])]\<rparr>)"
  by (simp add: EnsureIndexes_def Indexes_List_eq Indexes_CreateOne_eq server_create_def
      index_name_def unnamed_index_def empty_store_def range_keys_def create_call_def
      format_int_1)




text \<open>The second variant dereferences the missing name while sorting.\<close>

lemma EnsureIndexes2_unnamed_panics:
  "fst (EnsureIndexes2 [unnamed_index, index_A] empty_store) = Inl NilDereference"
  by (simp add: EnsureIndexes2_def Indexes_List_eq sort_Slice_def less_by_name_def deref_Name_def
      unnamed_index_def index_A_def named_index_def empty_store_def)

subsection \<open>The scenario, and a second run\<close>

text \<open>
  Claim C1, as amended. With the desired set \<open>{A:{field:1}, B:{field:-1}}\<close> and the live
  set \<open>{A:{field:1}, C:{field:1}}\<close> next to the primary-key index, both variants return
  success after issuing the listing, then \<open>drop(C)\<close>, then \<open>create(A)\<close> and \<open>create(B)\<close>:
  every desired descriptor is submitted for creation, the create of \<open>A\<close> finds the
  identical index, and the live set ends as \<^verbatim>\<open>_id_\<close>, \<open>A\<close>, \<open>B\<close> with \<open>A\<close> as it was. In
  every run, of either variant, the calls are the listing, then drops, then creates.
\<close>

theorem EnsureIndexes_scenario:
  "EnsureIndexes rank [index_A, index_B] live_AC = (Inr (), after_AB) \<and>
   EnsureIndexes2 [index_A, index_B] live_AC = (Inr (), after_AB) \<and>
   (\<exists>ds cs. issued s (snd (EnsureIndexes rank indexes s)) =
      (WriteCollection, ListIndexes) # map (\<lambda>n. (WriteCollection, DropOne n)) ds
        @ map (\<lambda>m. (WriteCollection, CreateOne m)) cs) \<and>
   (\<exists>ds cs. issued s (snd (EnsureIndexes2 indexes s)) =
      (WriteCollection, ListIndexes) # map (\<lambda>n. (WriteCollection, DropOne n)) ds
        @ map (\<lambda>m. (WriteCollection, CreateOne m)) cs)"
proof -
  obtain r s' where a: "EnsureIndexes rank indexes s = (r, s')"
    by (cases "EnsureIndexes rank indexes s")
  obtain q t' where b: "EnsureIndexes2 indexes s = (q, t')"
    by (cases "EnsureIndexes2 indexes s")
  show ?thesis
    using EnsureIndexes_id_untouched [OF a] EnsureIndexes2_id_untouched [OF b]
    unfolding a b by (simp add: scenario_run scenario_run2 list_call_def drop_call_def [abs_def]
        create_call_def [abs_def])
qed

text \<open>Claim C1 as stated fails: the index operations of the scenario are three, not the
  two of the claim, because \<open>create(A)\<close> is issued as well.\<close>

theorem EnsureIndexes_scenario_creates_A:
  "filter (\<lambda>c. snd c \<noteq> ListIndexes)
      (issued live_AC (snd (EnsureIndexes (\<lambda>_. 0) [index_A, index_B] live_AC)))
     = [(WriteCollection, DropOne ''C''), (WriteCollection, CreateOne index_A),
        (WriteCollection, CreateOne index_B)] \<and>
   filter (\<lambda>c. snd c \<noteq> ListIndexes)
      (issued live_AC (snd (EnsureIndexes (\<lambda>_. 0) [index_A, index_B] live_AC)))
     \<noteq> [(WriteCollection, DropOne ''C''), (WriteCollection, CreateOne index_B)]"
  by (simp add: scenario_run issued_def after_AB_def) (simp add: live_AC_def)

lemma named_index_name:
  assumes "deref_Name m \<noteq> None"
  shows "deref_Name m = Some (index_name m)"
  using assms by (auto simp: deref_Name_def index_name_def split: option.splits)

lemma filter_none: "(\<forall>x\<in>set xs. \<not> P x) \<Longrightarrow> filter P xs = []"
  by (simp add: filter_empty_conv)

text \<open>
  Claim C2. When every descriptor is named and a run of \<^verbatim>\<open>EnsureIndexes\<close> has returned
  success, a second run on the state the first one left, with the same desired set,
  changes nothing: the live indexes are the same afterwards, no drop is issued, every
  create it issues is for a descriptor that is already live as described, and the run
  returns success unless the store fails it.
\<close>

theorem EnsureIndexes_idempotent:
  assumes named: "\<forall>m\<in>set indexes. deref_Name m \<noteq> None"
      and first: "EnsureIndexes rank indexes s = (Inr (), s1)"
  shows "live_indexes (snd (EnsureIndexes rank' indexes s1)) = live_indexes s1 \<and>
         (\<forall>c\<in>set (issued s1 (snd (EnsureIndexes rank' indexes s1))).
             c = (WriteCollection, ListIndexes) \<or>
             (\<exists>m\<in>set indexes. c = (WriteCollection, CreateOne m) \<and>
                 (index_name m, Keys m) \<in> set (live_indexes s1))) \<and>
         ((\<forall>n\<ge>length (calls s1). \<not> outage s1 n) \<longrightarrow>
             fst (EnsureIndexes rank' indexes s1) = Inr ())"
proof -
  let ?E = "set (expected_names indexes [])"
  have E: "?E = {n. \<exists>m\<in>set indexes. deref_Name m = Some n}" by (simp add: set_expected_names)
  \<comment> \<open>after the first run every live name is expected or the primary key, and every
      descriptor is live\<close>
  have "(\<forall>i\<in>set (live_indexes s1). fst i = ''_id_'' \<or> fst i \<in> ?E)
      \<and> descriptor ` set indexes \<subseteq> set (live_indexes s1)"
    using first
  proof (cases rule: EnsureIndexes_cases)
    case (dropped s2 r3)
    let ?ds = "names_to_drop rank indexes (live_indexes s)"
    from dropped(4) have r3: "r3 = Inr ()" by (cases r3) simp_all
    have l2: "live_indexes s2 = filter (\<lambda>i. fst i \<notin> set ?ds) (live_indexes s)"
      using drop_each_live [OF dropped(2)] by simp
    have ds: "set ?ds = (fst ` set (live_indexes s) - {''_id_''}) - ?E"
      by (auto simp: names_to_drop_def set_existing_names)
    have a: "\<forall>i\<in>set (live_indexes s2). fst i = ''_id_'' \<or> fst i \<in> ?E"
      unfolding l2 using ds by auto
    from create_each_live [OF dropped(3)] r3 obtain extra where
      e: "live_indexes s1 = live_indexes s2 @ extra" "set extra \<subseteq> descriptor ` set indexes"
      and p: "descriptor ` set indexes \<subseteq> set (live_indexes s1)" by blast
    have "\<forall>i\<in>set extra. fst i \<in> ?E"
    proof
      fix i assume "i \<in> set extra"
      then obtain m where m: "m \<in> set indexes" "i = descriptor m" using e by blast
      then have "deref_Name m = Some (index_name m)" using named named_index_name by blast
      then show "fst i \<in> ?E" using m unfolding E by (auto simp: descriptor_def)
    qed
    then have "\<forall>i\<in>set (live_indexes s1). fst i = ''_id_'' \<or> fst i \<in> ?E"
      using a e by auto
    then show ?thesis using p by blast
  qed simp_all
  then have live1: "\<forall>i\<in>set (live_indexes s1). fst i = ''_id_'' \<or> fst i \<in> ?E"
    and present: "descriptor ` set indexes \<subseteq> set (live_indexes s1)" by blast+
  have no_drops: "names_to_drop rank' indexes (live_indexes s1) = []"
    unfolding names_to_drop_def
    by (rule filter_none) (use live1 in \<open>auto simp: set_existing_names\<close>)
  obtain r s2 where second: "EnsureIndexes rank' indexes s1 = (r, s2)"
    by (cases "EnsureIndexes rank' indexes s1")
  let ?s1' = "s1\<lparr>calls := calls s1 @ [list_call]\<rparr>"
  have "live_indexes s2 = live_indexes s1 \<and>
         (\<forall>c\<in>set (issued s1 s2). c = list_call \<or>
             (\<exists>m\<in>set indexes. c = create_call m \<and> descriptor m \<in> set (live_indexes s1))) \<and>
         ((\<forall>n\<ge>length (calls s1). \<not> outage s1 n) \<longrightarrow> r = Inr ())"
    using second
  proof (cases rule: EnsureIndexes_cases)
    case list_failed
    then show ?thesis by (auto simp: issued_def)
  next
    case (drop_failed r2)
    have "drop_each [] ?s1' = (r2, s2)" using drop_failed(4) unfolding no_drops .
    then have "r2 = Inr ()" by simp
    then show ?thesis using drop_failed(2) by simp
  next
    case (dropped t2 r3)
    have "drop_each [] ?s1' = (Inr (), t2)" using dropped(2) unfolding no_drops .
    then have t2: "t2 = ?s1'" by simp
    have pres: "descriptor ` set indexes \<subseteq> set (live_indexes ?s1')" using present by simp
    from create_each_present [OF pres] dropped(3) t2
    have l: "live_indexes s2 = live_indexes s1"
      and ok: "(\<forall>n\<ge>length (calls ?s1'). \<not> outage ?s1' n) \<longrightarrow> r3 = Inr ()" by auto
    from create_each_calls [OF dropped(3)] t2 obtain j where
      "calls s2 = calls s1 @ list_call # map create_call (take j indexes)" by auto
    then have i: "issued s1 s2 = list_call # map create_call (take j indexes)" by (simp add: issued_def)
    have "\<forall>c\<in>set (issued s1 s2). c = list_call \<or>
             (\<exists>m\<in>set indexes. c = create_call m \<and> descriptor m \<in> set (live_indexes s1))"
      unfolding i using present by (auto dest: in_set_takeD)
    moreover have "(\<forall>n\<ge>length (calls s1). \<not> outage s1 n) \<longrightarrow> r = Inr ()"
      using ok dropped(4) by auto
    ultimately show ?thesis using l by blast
  qed
  then show ?thesis
    unfolding second by (simp add: list_call_def create_call_def descriptor_def)
qed

text \<open>The theorem on the scenario: the second run on \<open>after_AB\<close>.\<close>

theorem EnsureIndexes_idempotent_witness:
  "EnsureIndexes (\<lambda>_. 0) [index_A, index_B] live_AC = (Inr (), after_AB) \<and>
   live_indexes (snd (EnsureIndexes (\<lambda>_. 0) [index_A, index_B] after_AB)) = live_indexes after_AB \<and>
   fst (EnsureIndexes (\<lambda>_. 0) [index_A, index_B] after_AB) = Inr ()"
proof -
  have named: "\<forall>m\<in>set [index_A, index_B]. deref_Name m \<noteq> None"
    by (simp add: index_A_def index_B_def named_index_def deref_Name_def)
  have quiet: "\<forall>n\<ge>length (calls after_AB). \<not> outage after_AB n"
    by (simp add: after_AB_def live_AC_def)
  show ?thesis
    using EnsureIndexes_idempotent [OF named scenario_run [of "\<lambda>_. 0"], of "\<lambda>_. 0"] quiet
      scenario_run [of "\<lambda>_. 0"]
    by simp
qed

text \<open>The order of the drops is the order of the listing (second variant) or the order
  the map is ranged over (first variant), not the order of the names.\<close>

lemma EnsureIndexes2_drop_order:
  "issued live_ZC (snd (EnsureIndexes2 [] live_ZC)) =
     [(WriteCollection, ListIndexes), (WriteCollection, DropOne ''Z''),
      (WriteCollection, DropOne ''C'')]"
  by (simp add: EnsureIndexes2_def Indexes_List_eq Indexes_DropOne_eq server_drop_def
      live_ZC_def sort_Slice_def drop_call_def issued_def)

lemma EnsureIndexes_drop_order:
  "issued live_ZC (snd (EnsureIndexes (\<lambda>_. 0) [] live_ZC)) =
     [(WriteCollection, ListIndexes), (WriteCollection, DropOne ''Z''),
      (WriteCollection, DropOne ''C'')]"
  by (simp add: EnsureIndexes_def Indexes_List_eq Indexes_DropOne_eq server_drop_def
      live_ZC_def range_keys_def map_insert_def drop_call_def issued_def)

subsection \<open>The second run of the second variant, and runs without names\<close>

lemma is_drop_named:
  "\<forall>v\<in>set xs. deref_Name v \<noteq> None \<Longrightarrow>
     is_drop name xs b = Some (b \<and> name \<notin> {n. \<exists>v\<in>set xs. deref_Name v = Some n})"
proof (induction xs arbitrary: b)
  case Nil
  then show ?case by simp
next
  case (Cons v xs)
  then obtain n where n: "deref_Name v = Some n" by auto
  have "is_drop name (v # xs) b = is_drop name xs (if n = name then False else b)"
    using n by simp
  also have "\<dots> = Some ((if n = name then False else b)
      \<and> name \<notin> {n. \<exists>v\<in>set xs. deref_Name v = Some n})"
    using Cons by simp
  finally show ?case using n by auto
qed

lemma scan_cursor_named:
  "\<forall>v\<in>set xs. deref_Name v \<noteq> None \<Longrightarrow>
     scan_cursor cur xs acc =
       Some (acc @ filter (\<lambda>n. n \<noteq> ''_id_'' \<and> n \<notin> {n. \<exists>v\<in>set xs. deref_Name v = Some n})
                     (map fst cur))"
proof (induction cur arbitrary: acc)
  case Nil
  then show ?case by simp
next
  case (Cons index cur)
  show ?case
  proof (cases "fst index = ''_id_''")
    case True
    then show ?thesis using Cons by simp
  next
    case False
    then show ?thesis using Cons by (simp add: is_drop_named)
  qed
qed

lemma sift_named:
  "deref_Name x \<noteq> None \<Longrightarrow> \<forall>v\<in>set front. deref_Name v \<noteq> None \<Longrightarrow> \<exists>front'. sift x front = Some front'"
proof (induction front)
  case Nil
  then show ?case by simp
next
  case (Cons y front)
  then obtain b where b: "less_by_name x y = Some b"
    by (auto simp: less_by_name_def split: option.splits)
  show ?case
  proof (cases b)
    case True
    obtain f where "sift x front = Some f" using Cons by auto
    then show ?thesis using b True by simp
  next
    case False
    then show ?thesis using b by simp
  qed
qed

lemma insertion_sort_named:
  "\<forall>v\<in>set xs. deref_Name v \<noteq> None \<Longrightarrow> \<forall>v\<in>set front. deref_Name v \<noteq> None \<Longrightarrow>
     \<exists>ys. insertion_sort xs front = Some ys"
proof (induction xs arbitrary: front)
  case Nil
  then show ?case by simp
next
  case (Cons x xs)
  then obtain front' where f: "sift x front = Some front'" using sift_named [of x front] by auto
  then have "\<forall>v\<in>set front'. deref_Name v \<noteq> None" using Cons.prems set_sift [OF f] by auto
  then show ?case using Cons f by simp
qed

lemma sort_Slice_named:
  "\<forall>v\<in>set indexes. deref_Name v \<noteq> None \<Longrightarrow> \<exists>xs. sort_Slice indexes = Some xs \<and> set xs = set indexes"
  using insertion_sort_named [of indexes "[]"] set_sort_Slice by (auto simp: sort_Slice_def)

text \<open>The second run of the second variant: the counterpart of claim C2's theorem.\<close>

lemma EnsureIndexes2_idempotent:
  assumes named: "\<forall>m\<in>set indexes. deref_Name m \<noteq> None"
      and first: "EnsureIndexes2 indexes s = (Inr (), s1)"
  shows "live_indexes (snd (EnsureIndexes2 indexes s1)) = live_indexes s1 \<and>
         (\<forall>c\<in>set (issued s1 (snd (EnsureIndexes2 indexes s1))).
             c = (WriteCollection, ListIndexes) \<or>
             (\<exists>m\<in>set indexes. c = (WriteCollection, CreateOne m) \<and>
                 (index_name m, Keys m) \<in> set (live_indexes s1))) \<and>
         ((\<forall>n\<ge>length (calls s1). \<not> outage s1 n) \<longrightarrow>
             fst (EnsureIndexes2 indexes s1) = Inr ())"
proof -
  let ?E = "{n. \<exists>m\<in>set indexes. deref_Name m = Some n}"
  obtain xs where xs: "sort_Slice indexes = Some xs" "set xs = set indexes"
    using sort_Slice_named [OF named] by blast
  have xs_named: "\<forall>v\<in>set xs. deref_Name v \<noteq> None" using named xs by simp
  have Exs: "{n. \<exists>v\<in>set xs. deref_Name v = Some n} = ?E" using xs by simp
  have scan: "scan_cursor cur xs [] = Some (filter (\<lambda>n. n \<noteq> ''_id_'' \<and> n \<notin> ?E) (map fst cur))" for cur
    using scan_cursor_named [OF xs_named, of cur "[]"] Exs by simp
  have "(\<forall>i\<in>set (live_indexes s1). fst i = ''_id_'' \<or> fst i \<in> ?E)
      \<and> descriptor ` set indexes \<subseteq> set (live_indexes s1)"
    using first
  proof (cases rule: EnsureIndexes2_cases)
    case (dropped ys ds s2)
    have ys: "ys = xs" using dropped(2) xs by simp
    have ds: "ds = filter (\<lambda>n. n \<noteq> ''_id_'' \<and> n \<notin> ?E) (map fst (live_indexes s))"
      using dropped(3) scan unfolding ys by simp
    have l2: "live_indexes s2 = filter (\<lambda>i. fst i \<notin> set ds) (live_indexes s)"
      using drop_each_live [OF dropped(4)] by simp
    have a: "\<forall>i\<in>set (live_indexes s2). fst i = ''_id_'' \<or> fst i \<in> ?E"
      unfolding l2 ds by auto
    from create_each_live [OF dropped(5)] obtain extra where
      e: "live_indexes s1 = live_indexes s2 @ extra" "set extra \<subseteq> descriptor ` set ys"
      and p: "descriptor ` set ys \<subseteq> set (live_indexes s1)" by blast
    have "\<forall>i\<in>set extra. fst i \<in> ?E"
    proof
      fix i assume "i \<in> set extra"
      then obtain m where m: "m \<in> set indexes" "i = descriptor m" using e ys xs by blast
      then have "deref_Name m = Some (index_name m)" using named named_index_name by blast
      then show "fst i \<in> ?E" using m by (auto simp: descriptor_def)
    qed
    then have "\<forall>i\<in>set (live_indexes s1). fst i = ''_id_'' \<or> fst i \<in> ?E"
      using a e by auto
    then show ?thesis using p ys xs by simp
  qed simp_all
  then have live1: "\<forall>i\<in>set (live_indexes s1). fst i = ''_id_'' \<or> fst i \<in> ?E"
    and present: "descriptor ` set indexes \<subseteq> set (live_indexes s1)" by blast+
  have no_drops: "scan_cursor (live_indexes s1) xs [] = Some []"
    unfolding scan by (simp add: filter_empty_conv) (use live1 in auto)
  obtain r s2 where second: "EnsureIndexes2 indexes s1 = (r, s2)"
    by (cases "EnsureIndexes2 indexes s1")
  let ?s1' = "s1\<lparr>calls := calls s1 @ [list_call]\<rparr>"
  have "live_indexes s2 = live_indexes s1 \<and>
         (\<forall>c\<in>set (issued s1 s2). c = list_call \<or>
             (\<exists>m\<in>set indexes. c = create_call m \<and> descriptor m \<in> set (live_indexes s1))) \<and>
         ((\<forall>n\<ge>length (calls s1). \<not> outage s1 n) \<longrightarrow> r = Inr ())"
    using second
  proof (cases rule: EnsureIndexes2_cases)
    case list_failed
    then show ?thesis by (auto simp: issued_def)
  next
    case panicked
    have c: "create_each xs ?s1' = (r, s2)"
      using second panicked(1) xs no_drops
      by (simp add: EnsureIndexes2_def Indexes_List_eq list_call_def)
    have "descriptor ` set xs \<subseteq> set (live_indexes ?s1')" using present xs by simp
    from create_each_present [OF this c] have "r = Inr () \<or> r = Inl Network" by simp
    then show ?thesis using panicked(3) by simp
  next
    case (drop_failed ys ds e)
    then have "ds = []" using xs no_drops by simp
    then show ?thesis using drop_failed(4) by simp
  next
    case (dropped ys ds t2)
    then have ys: "ys = xs" and ds: "ds = []" using xs no_drops by simp_all
    have t2: "t2 = ?s1'" using dropped(4) ds by simp
    have pres: "descriptor ` set ys \<subseteq> set (live_indexes ?s1')" using present ys xs by simp
    from create_each_present [OF pres] dropped(5) t2
    have l: "live_indexes s2 = live_indexes s1"
      and ok: "(\<forall>n\<ge>length (calls ?s1'). \<not> outage ?s1' n) \<longrightarrow> r = Inr ()" by auto
    from create_each_calls [OF dropped(5)] t2 obtain j where
      "calls s2 = calls s1 @ list_call # map create_call (take j ys)" by auto
    then have i: "issued s1 s2 = list_call # map create_call (take j ys)" by (simp add: issued_def)
    have "\<forall>c\<in>set (issued s1 s2). c = list_call \<or>
             (\<exists>m\<in>set indexes. c = create_call m \<and> descriptor m \<in> set (live_indexes s1))"
      unfolding i using present ys xs by (auto dest: in_set_takeD)
    moreover have "(\<forall>n\<ge>length (calls s1). \<not> outage s1 n) \<longrightarrow> r = Inr ()"
      using ok by auto
    ultimately show ?thesis using l by blast
  qed
  then show ?thesis
    unfolding second by (simp add: list_call_def create_call_def descriptor_def)
qed

text \<open>Without the names the second run of the second variant crashes: the first run
  creates the index under the driver's name, and the second meets it in its scan.\<close>

lemma EnsureIndexes2_unnamed_second_run:
  "EnsureIndexes2 [unnamed_index] empty_store =
     (Inr (),
      empty_store\<lparr>calls := [(WriteCollection, ListIndexes), (WriteCollection, CreateOne unnamed_index)],
                   live_indexes := [(''_id_'', [(''_id'', 1)]), (''field_1'', [(''field'', 1)])]\<rparr>) \<and>
   fst (EnsureIndexes2 [unnamed_index]
      (empty_store\<lparr>calls := [(WriteCollection, ListIndexes), (WriteCollection, CreateOne unnamed_index)],
                   live_indexes := [(''_id_'', [(''_id'', 1)]), (''field_1'', [(''field'', 1)])]\<rparr>))
     = Inl NilDereference"
  by (simp add: EnsureIndexes2_def Indexes_List_eq Indexes_CreateOne_eq server_create_def
      index_name_def unnamed_index_def empty_store_def sort_Slice_def create_call_def
      format_int_1 deref_Name_def)

text \<open>In the first variant the second run drops and recreates the index it made up a name for.\<close>

lemma EnsureIndexes_unnamed_second_run:
  "issued (snd (EnsureIndexes (\<lambda>_. 0) [unnamed_index] empty_store))
      (snd (EnsureIndexes (\<lambda>_. 0) [unnamed_index] (snd (EnsureIndexes (\<lambda>_. 0) [unnamed_index] empty_store))))
    = [(WriteCollection, ListIndexes), (WriteCollection, DropOne ''field_1''),
       (WriteCollection, CreateOne unnamed_index)]"
  by (simp add: EnsureIndexes_unnamed_run)
     (simp add: EnsureIndexes_def Indexes_List_eq Indexes_CreateOne_eq Indexes_DropOne_eq
      server_create_def server_drop_def index_name_def unnamed_index_def empty_store_def
      range_keys_def map_insert_def create_call_def drop_call_def format_int_1 issued_def)

subsection \<open>Documents: insert, update, find\<close>

lemma issued_append [simp]: "calls s' = calls s @ cs \<Longrightarrow> issued s s' = cs"
  by (simp add: issued_def)

lemma issued_refl [simp]: "issued s s = []"
  by (simp add: issued_def)

lemma Collection_InsertMany_empty:
  "Collection_InsertMany c [] s =
     (Inl (if outage s (length (calls s)) then Network else ErrEmptySlice),
      s\<lparr>calls := calls s @ [(c, InsertMany_req [])]\<rparr>)"
  by (simp add: Collection_InsertMany_def issue_def Let_def)

text \<open>
  Claim C8, as amended. \<^verbatim>\<open>InsertMany\<close> has no guard for an empty list: it hands the empty
  batch to the driver's \<^verbatim>\<open>InsertMany\<close> on the write collection, which is the one call it
  issues, and returns the driver's answer, an error (the driver's refusal of an empty
  batch, or the failure of the call); the stored documents are unchanged.
\<close>

theorem InsertMany_empty:
  "fst (InsertMany [] s) = Inl (if outage s (length (calls s)) then Network else ErrEmptySlice) \<and>
   issued s (snd (InsertMany [] s)) = [(WriteCollection, InsertMany_req [])] \<and>
   stored_docs (snd (InsertMany [] s)) = stored_docs s"
  by (simp add: InsertMany_def Collection_InsertMany_empty)

text \<open>Claim C8 as stated fails on a store without faults: the call returns the driver's
  error and one call has been issued.\<close>

theorem InsertMany_empty_fails:
  "fst (InsertMany [] empty_store) = Inl ErrEmptySlice \<and>
   issued empty_store (snd (InsertMany [] empty_store)) = [(WriteCollection, InsertMany_req [])]"
  by (simp add: InsertMany_def Collection_InsertMany_empty empty_store_def)


text \<open>The first variant has no such demand: it hands every update to the driver.\<close>

lemma UpdateOne_issues_write:
  "issued s (snd (UpdateOne flt update opts s))
     = [(WriteCollection, UpdateOne_req flt (AsGiven update) opts)]"
  by (simp add: UpdateOne_def Collection_UpdateOne_def issue_def Let_def)

text \<open>
  Claim C10. The second variant's \<^verbatim>\<open>FindOne\<close> does not depend on the options it is
  given: for any two of them the result and the state are the same, and the one call
  issued is a single-document read on the read collection with the filter and freshly
  made, empty options.
\<close>

theorem FindOne2_ignores_options:
  "FindOne2 flt o1 s = FindOne2 flt o2 s \<and>
   issued s (snd (FindOne2 flt o1 s)) = [(ReadCollection, FindFirst flt (Some new_FindOneOptions))]"
  by (simp add: FindOne2_def Collection_FindOne_def issue_def Let_def split: sum.splits prod.splits)

lemma Collection_CountDocuments_eq:
  "Collection_CountDocuments c flt s =
     (if outage s (length (calls s)) then Inl Network
      else Inr (of_nat (length (filter flt (stored_docs s)))),
      s\<lparr>calls := calls s @ [(c, CountDocuments flt)]\<rparr>)"
  by (simp add: Collection_CountDocuments_def issue_def Let_def)

lemma Collection_Find_eq:
  "Collection_Find c flt opt s =
     (if outage s (length (calls s)) then Inl Network
      else server_find flt opt (stored_docs s),
      s\<lparr>calls := calls s @ [(c, FindMany flt opt)]\<rparr>)"
  by (simp add: Collection_Find_def issue_def Let_def split: sum.splits)

lemma Find_paginated_eq:
  "Find oor flt (Some fo) (Some p) s =
     (if outage s (length (calls s))
      then (Inl Network, Some p, s\<lparr>calls := calls s @ [(ReadCollection, CountDocuments flt)]\<rparr>)
      else
        (let p2 = SetTotalRecord oor (Init p (PageCurrent p) (PageLimit p))
                    (of_nat (length (filter flt (stored_docs s))));
             fo2 = fo\<lparr>Skip := Some (Offset p2), Limit := Some (PageLimit p2)\<rparr>
         in (if outage s (Suc (length (calls s))) then Inl Network
             else server_find flt (Some fo2) (stored_docs s),
             Some p2,
             s\<lparr>calls := calls s @ [(ReadCollection, CountDocuments flt),
                                    (ReadCollection, FindMany flt (Some fo2))]\<rparr>)))"
  by (simp add: Find_def Collection_CountDocuments_eq Collection_Find_eq Let_def SetSkip_def
      SetLimit_def split: sum.splits)

lemma scenario_pages:
  "SetTotalRecord min_int64 (Init (zero_Pagination\<lparr>PageCurrent := 2, PageLimit := 10\<rparr>) 2 10) 25
    = \<lparr>PageLimit = 10, Offset = 10, PageCurrent = 2, TotalPage = 3, TotalRecord = 25\<rparr>"
  by code_simp

lemma scenario_find:
 "Find min_int64 (\<lambda>_. True) (Some \<lparr>Skip = None, Limit = None\<rparr>)
      (Some (zero_Pagination\<lparr>PageCurrent := 2, PageLimit := 10\<rparr>)) docs_25 = 
    (Inr [11 ..< 21],
     Some \<lparr>PageLimit = 10, Offset = 10, PageCurrent = 2, TotalPage = 3, TotalRecord = 25\<rparr>,
     docs_25\<lparr>calls := [(ReadCollection, CountDocuments (\<lambda>_. True)),
                       (ReadCollection, FindMany (\<lambda>_. True) (Some \<lparr>Skip = Some 10, Limit = Some 10\<rparr>))]\<rparr>)"
  apply (simp add: Find_paginated_eq)
  apply (simp add: docs_25_def Let_def)
  apply (simp add: zero_Pagination_def scenario_pages [unfolded zero_Pagination_def, simplified])
  apply (simp add: server_find_def apply_limit_def)
  done

text \<open>
  When the options exist and a pagination is given, \<^verbatim>\<open>Find\<close> first counts with the same
  filter on the read collection; if the count fails that error is returned and nothing
  else is issued; otherwise the pagination is initialised from its own page and limit and
  given the total, the options get its offset as skip and its limit as limit, and the
  query with the same filter goes to the read collection. With page 2 and limit 10 on 25
  matching documents the result is documents 11 to 20 and the pagination holds
  3 pages, 25 records and offset 10.
\<close>

theorem Find_with_pagination:
  "Find oor flt (Some fo) (Some p) s =
     (if outage s (length (calls s))
      then (Inl Network, Some p, s\<lparr>calls := calls s @ [(ReadCollection, CountDocuments flt)]\<rparr>)
      else
        (let p2 = SetTotalRecord oor (Init p (PageCurrent p) (PageLimit p))
                    (of_nat (length (filter flt (stored_docs s))));
             fo2 = fo\<lparr>Skip := Some (Offset p2), Limit := Some (PageLimit p2)\<rparr>
         in (if outage s (Suc (length (calls s))) then Inl Network
             else server_find flt (Some fo2) (stored_docs s),
             Some p2,
             s\<lparr>calls := calls s @ [(ReadCollection, CountDocuments flt),
                                    (ReadCollection, FindMany flt (Some fo2))]\<rparr>))) \<and>
   Find min_int64 (\<lambda>_. True) (Some \<lparr>Skip = None, Limit = None\<rparr>)
      (Some (zero_Pagination\<lparr>PageCurrent := 2, PageLimit := 10\<rparr>)) docs_25 =
    (Inr [11 ..< 21],
     Some \<lparr>PageLimit = 10, Offset = 10, PageCurrent = 2, TotalPage = 3, TotalRecord = 25\<rparr>,
     docs_25\<lparr>calls := [(ReadCollection, CountDocuments (\<lambda>_. True)),
                       (ReadCollection, FindMany (\<lambda>_. True) (Some \<lparr>Skip = Some 10, Limit = Some 10\<rparr>))]\<rparr>)"
  by (rule conjI [OF Find_paginated_eq scenario_find])

text \<open>
  Claim C7. The code does not do this for every call with a pagination: \<^verbatim>\<open>opt.SetSkip\<close>
  is called without a nil check, in both variants. In the scenario of the claim (page 2,
  limit 10, 25 matching documents) with nil options, \<^verbatim>\<open>Find\<close> counts on the read
  collection, fills the pagination (3 pages, 25 records, offset 10), and then
  dereferences nil: it ends in a panic, returns no documents, and the query is never
  issued.
\<close>

theorem Find_scenario_nil_options:
  "Find min_int64 (\<lambda>_. True) None
      (Some (zero_Pagination\<lparr>PageCurrent := 2, PageLimit := 10\<rparr>)) docs_25 =
    (Inl NilDereference,
     Some \<lparr>PageLimit = 10, Offset = 10, PageCurrent = 2, TotalPage = 3, TotalRecord = 25\<rparr>,
     docs_25\<lparr>calls := [(ReadCollection, CountDocuments (\<lambda>_. True))]\<rparr>)"
  apply (simp add: Find_def Collection_CountDocuments_eq Let_def)
  apply (simp add: docs_25_def)
  apply (simp add: zero_Pagination_def scenario_pages [unfolded zero_Pagination_def, simplified])
  done

text \<open>The same for every filter, pagination and store whose count succeeds.\<close>

lemma Find_nil_options:
  "\<not> outage s (length (calls s)) \<Longrightarrow>
     fst (Find oor flt None (Some p) s) = Inl NilDereference \<and>
     issued s (snd (snd (Find oor flt None (Some p) s))) = [(ReadCollection, CountDocuments flt)]"
  by (simp add: Find_def Collection_CountDocuments_eq Let_def)

end
